theory Spec2Isabelle
  imports Complex_Main "HOL-Library.Multiset"
begin

section \<open>Distance measures between discrete trajectories\<close>

text \<open>
  The repository holds two headers: \<open>Hausdorff.hpp\<close> (a randomised, early-terminating
  directed Hausdorff distance) and \<open>Frechet.hpp\<close> (a banded discrete Frechet distance).
  Both are templates over a coordinate type \<open>T\<close>; here \<open>T\<close> is the type of real numbers,
  so rounding, overflow and NaN are outside the model. A \<open>std::vector\<close> is a list.

  An access \<open>v[k]\<close> with \<open>k \<ge> v.size()\<close> has no defined result in C++ (and stops the
  program when the standard library checks its subscripts). The model makes that
  outcome a value: every vector access whose index the code does not bound goes through
  \<open>vget\<close>, \<open>mget\<close> or \<open>mput\<close>, which answer \<open>Inl OutOfRange\<close> outside the vector. The
  exception thrown by \<open>hausdorffDistance\<close> is \<open>Inl EmptyInput\<close>, an integer division by
  zero is \<open>Inl DivByZero\<close>. The sweep of \<open>computeFrechetMatrix\<close>, whose loop tests read
  a row of the distance matrix outside its bounds, is modelled twice: with the subscripts
  checked, and with the subscripts of these reads unchecked, an out-of-range read then
  yielding a value that the program does not determine (the functions named
  \<open>..._unchecked\<close>).
\<close>

datatype error = EmptyInput | OutOfRange | DivByZero

type_synonym point = "real list"
type_synonym trajectory = "point list"
type_synonym matrix = "real list list"

definition vget :: "'a list \<Rightarrow> nat \<Rightarrow> error + 'a" where
  "vget v k = (if k < length v then Inr (v ! k) else Inl OutOfRange)"

subsection \<open>The sum of squared coordinate differences\<close>

text \<open>
  Both headers run the same loop over the coordinates of the first point,
  \<open>for (idx = 0; idx < a.size(); ++idx) sum += (a[idx] - b[idx]) * (a[idx] - b[idx])\<close>.
  The bound is the size of \<open>a\<close> alone; \<open>b[idx]\<close> is read whatever the size of \<open>b\<close> is.
\<close>

function sumSquares :: "point \<Rightarrow> point \<Rightarrow> nat \<Rightarrow> real \<Rightarrow> error + real" where
  "sumSquares a b idx s =
     (if idx < length a then
        (case vget b idx of
           Inl e \<Rightarrow> Inl e
         | Inr y \<Rightarrow> sumSquares a b (Suc idx) (s + (a ! idx - y) * (a ! idx - y)))
      else Inr s)"
  by pat_completeness auto
termination
  by (relation "measure (\<lambda>(a, b, idx, s). length a - idx)") auto

declare sumSquares.simps [simp del]

text \<open>\<open>Frechet::distanceMetric\<close>: the loop above from \<open>sum = 0\<close>, then \<open>std::sqrt\<close>.\<close>

definition distanceMetric :: "point \<Rightarrow> point \<Rightarrow> error + real" where
  "distanceMetric a b =
     (case sumSquares a b 0 0 of Inl e \<Rightarrow> Inl e | Inr s \<Rightarrow> Inr (sqrt s))"

subsection \<open>Hausdorff.hpp\<close>

text \<open>
  \<open>hausdorffDistance\<close> shuffles the index vectors \<open>0, ..., a.size() - 1\<close> and
  \<open>0, ..., b.size() - 1\<close> with a generator seeded from \<open>std::random_device\<close>. The two
  shuffled vectors are parameters of the model, \<open>indicesA\<close> and \<open>indicesB\<close>; what
  \<open>std::shuffle\<close> guarantees about them is \<open>isShuffle\<close>.

  \<open>cMin\<close> starts every inner loop at \<open>std::numeric_limits<T>::infinity()\<close>: it is a
  \<open>real option\<close>, \<open>None\<close> being infinity, and \<open>below d cMin\<close> is the test \<open>d < cMin\<close>.
\<close>

definition isShuffle :: "nat list \<Rightarrow> nat \<Rightarrow> bool" where
  "isShuffle indices n = (mset indices = mset [0..<n])"

definition below :: "real \<Rightarrow> real option \<Rightarrow> bool" where
  "below d cMin = (case cMin of None \<Rightarrow> True | Some c \<Rightarrow> d < c)"

text \<open>
  The inner loop over \<open>indicesB\<close> (lines 61 to 76). It returns \<open>cMin\<close> and
  \<open>haveWeBroken\<close>.
\<close>

fun innerLoop ::
  "trajectory \<Rightarrow> trajectory \<Rightarrow> nat \<Rightarrow> real \<Rightarrow> nat list \<Rightarrow> real option
     \<Rightarrow> error + (real option \<times> bool)" where
  "innerLoop a b indexA cMax [] cMin = Inr (cMin, False)"
| "innerLoop a b indexA cMax (indexB # rest) cMin =
     (case vget a indexA of
        Inl e \<Rightarrow> Inl e
      | Inr pa \<Rightarrow>
         (case vget b indexB of
            Inl e \<Rightarrow> Inl e
          | Inr pb \<Rightarrow>
             (case sumSquares pa pb 0 0 of
                Inl e \<Rightarrow> Inl e
              | Inr d \<Rightarrow>
                  if d < cMax then Inr (cMin, True)
                  else innerLoop a b indexA cMax rest
                         (if below d cMin then Some d else cMin))))"

text \<open>
  The outer loop over \<open>indicesA\<close> (lines 56 to 81): \<open>cMax\<close> becomes \<open>cMin\<close> when
  \<open>isfinite(cMin) && cMin >= cMax && !haveWeBroken\<close>.
\<close>

fun outerLoop ::
  "trajectory \<Rightarrow> trajectory \<Rightarrow> nat list \<Rightarrow> real \<Rightarrow> nat list \<Rightarrow> error + real" where
  "outerLoop a b indicesB cMax [] = Inr cMax"
| "outerLoop a b indicesB cMax (indexA # rest) =
     (case innerLoop a b indexA cMax indicesB None of
        Inl e \<Rightarrow> Inl e
      | Inr (cMin, haveWeBroken) \<Rightarrow>
          outerLoop a b indicesB
            (case cMin of
               None \<Rightarrow> cMax
             | Some c \<Rightarrow> if c \<ge> cMax \<and> \<not> haveWeBroken then c else cMax)
            rest)"

definition hausdorffDistance ::
  "nat list \<Rightarrow> nat list \<Rightarrow> trajectory \<Rightarrow> trajectory \<Rightarrow> error + real" where
  "hausdorffDistance indicesA indicesB a b =
     (if a = [] \<or> b = [] then Inl EmptyInput
      else (case outerLoop a b indicesB 0 indicesA of
              Inl e \<Rightarrow> Inl e
            | Inr cMax \<Rightarrow> Inr (sqrt cMax)))"

subsection \<open>Frechet.hpp: the banded distance matrix\<close>

text \<open>
  A matrix is a \<open>std::vector<std::vector<T>>\<close>; \<open>mget M i j\<close> reads \<open>M[i][j]\<close> and
  \<open>mput M i j v\<close> is the assignment \<open>M[i][j] = v\<close>.
\<close>

definition mget :: "matrix \<Rightarrow> nat \<Rightarrow> nat \<Rightarrow> error + real" where
  "mget M i j = (case vget M i of Inl e \<Rightarrow> Inl e | Inr row \<Rightarrow> vget row j)"

definition mput :: "matrix \<Rightarrow> nat \<Rightarrow> nat \<Rightarrow> real \<Rightarrow> error + matrix" where
  "mput M i j v =
     (if i < length M \<and> j < length (M ! i) then Inr (M[i := (M ! i)[j := v]])
      else Inl OutOfRange)"

text \<open>\<open>distanceMetric(l1[i], l2[j])\<close>.\<close>

definition pointDistance :: "trajectory \<Rightarrow> trajectory \<Rightarrow> nat \<Rightarrow> nat \<Rightarrow> error + real" where
  "pointDistance l1 l2 i j =
     (case vget l1 i of
        Inl e \<Rightarrow> Inl e
      | Inr p \<Rightarrow> (case vget l2 j of Inl e \<Rightarrow> Inl e | Inr q \<Rightarrow> distanceMetric p q))"

text \<open>
  The two loops that build the core diagonal (lines 69 to 74 and 76 to 81) have one
  body, \<open>j = ...; distanceMatrix[i][j] = distanceMetric(l1[i], l2[j]);
  diagMax = std::max(distanceMatrix[i][j], diagMax)\<close>, and differ in the formula for
  \<open>j\<close> and in the bound: \<open>fillDiagonal column\<close> is the loop
  \<open>for (; i < bound; ++i)\<close> with \<open>j = column i\<close>. On \<open>int\<close>, the tests
  \<open>i <= r * (q + 1)\<close> and \<open>i <= (n - 1)\<close> of the source are \<open>i < r * (q + 1) + 1\<close>
  and \<open>i < n\<close>; the passes below write \<open>i < n\<close> and \<open>j < m\<close> likewise.
\<close>

function fillDiagonal ::
  "(nat \<Rightarrow> nat) \<Rightarrow> trajectory \<Rightarrow> trajectory \<Rightarrow> nat \<Rightarrow> nat \<Rightarrow> real \<Rightarrow> matrix
     \<Rightarrow> error + (real \<times> matrix)" where
  "fillDiagonal column l1 l2 bound i diagMax dm =
     (if i < bound then
        (case pointDistance l1 l2 i (column i) of
           Inl e \<Rightarrow> Inl e
         | Inr d \<Rightarrow>
            (case mput dm i (column i) d of
               Inl e \<Rightarrow> Inl e
             | Inr dm' \<Rightarrow> fillDiagonal column l1 l2 bound (Suc i) (max d diagMax) dm'))
      else Inr (diagMax, dm))"
  by pat_completeness auto
termination
  by (relation "measure (\<lambda>(column, l1, l2, bound, i, diagMax, dm). bound - i)") auto

declare fillDiagonal.simps [simp del]

text \<open>
  The \<open>while\<close> loop of one row of the upper-right pass (lines 88 to 96), entered with
  \<open>j = i\<close>. When the distance computed is not below \<open>diagMax\<close>, \<open>j\<close> stays and the
  test is evaluated again on unchanged values, so the loop as written need not end:
  it is a partial function, \<open>None\<close> being a loop that runs forever.
\<close>

partial_function (option) upperRow ::
  "trajectory \<Rightarrow> trajectory \<Rightarrow> nat \<Rightarrow> nat \<Rightarrow> real \<Rightarrow> nat \<Rightarrow> nat \<Rightarrow> real \<Rightarrow> matrix
     \<Rightarrow> (error + (nat \<times> matrix)) option" where
  "upperRow l1 l2 m jMin diagMax i j d dm =
     (if (j < m \<or> d \<le> diagMax) \<and> j < jMin then
        (case pointDistance l1 l2 i j of
           Inl e \<Rightarrow> Some (Inl e)
         | Inr d' \<Rightarrow>
            if d' < diagMax then
              (case mput dm i j d' of
                 Inl e \<Rightarrow> Some (Inl e)
               | Inr dm' \<Rightarrow> upperRow l1 l2 m jMin diagMax i (Suc j) d' dm')
            else upperRow l1 l2 m jMin diagMax i j d' dm)
      else Some (Inr (j, dm)))"

text \<open>
  The upper-right pass (lines 83 to 98). The local \<open>T d;\<close> of each row has no
  initialiser, and the loop test reads it when \<open>j < m\<close> is false: its value is not
  determined by the program and is the parameter \<open>dInit i\<close> of the model.
\<close>

function upperRight ::
  "(nat \<Rightarrow> real) \<Rightarrow> trajectory \<Rightarrow> trajectory \<Rightarrow> nat \<Rightarrow> nat \<Rightarrow> real \<Rightarrow> nat \<Rightarrow> nat \<Rightarrow> matrix
     \<Rightarrow> (error + matrix) option" where
  "upperRight dInit l1 l2 n m diagMax i jMin dm =
     (if i < n then
        (case upperRow l1 l2 m jMin diagMax i i (dInit i) dm of
           None \<Rightarrow> None
         | Some (Inl e) \<Rightarrow> Some (Inl e)
         | Some (Inr (j, dm')) \<Rightarrow> upperRight dInit l1 l2 n m diagMax (Suc i) j dm')
      else Some (Inr dm))"
  by pat_completeness auto
termination
  by (relation "measure (\<lambda>(dInit, l1, l2, n, m, diagMax, i, jMin, dm). n - i)") auto

declare upperRight.simps [simp del]

text \<open>The \<open>do ... while\<close> loop of one column of the lower-left pass (lines 105 to 113).\<close>

partial_function (option) lowerColumn ::
  "trajectory \<Rightarrow> trajectory \<Rightarrow> nat \<Rightarrow> nat \<Rightarrow> real \<Rightarrow> nat \<Rightarrow> nat \<Rightarrow> matrix
     \<Rightarrow> (error + (nat \<times> matrix)) option" where
  "lowerColumn l1 l2 n iMin diagMax j i dm =
     (case pointDistance l1 l2 i j of
        Inl e \<Rightarrow> Some (Inl e)
      | Inr d \<Rightarrow>
         (case (if d < diagMax then
                  (case mput dm i j d of Inl e \<Rightarrow> Inl e | Inr dm' \<Rightarrow> Inr (Suc i, dm'))
                else Inr (i, dm)) of
            Inl e \<Rightarrow> Some (Inl e)
          | Inr (i', dm') \<Rightarrow>
              if (i' < n \<or> d \<le> diagMax) \<and> i' < iMin
              then lowerColumn l1 l2 n iMin diagMax j i' dm'
              else Some (Inr (i', dm'))))"

text \<open>The lower-left pass (lines 100 to 115).\<close>

function lowerLeft ::
  "trajectory \<Rightarrow> trajectory \<Rightarrow> nat \<Rightarrow> nat \<Rightarrow> real \<Rightarrow> nat \<Rightarrow> nat \<Rightarrow> matrix
     \<Rightarrow> (error + matrix) option" where
  "lowerLeft l1 l2 n m diagMax j iMin dm =
     (if j < m then
        (case lowerColumn l1 l2 n iMin diagMax j j dm of
           None \<Rightarrow> None
         | Some (Inl e) \<Rightarrow> Some (Inl e)
         | Some (Inr (i, dm')) \<Rightarrow> lowerLeft l1 l2 n m diagMax (Suc j) i dm')
      else Some (Inr dm))"
  by pat_completeness auto
termination
  by (relation "measure (\<lambda>(l1, l2, n, m, diagMax, j, iMin, dm). m - j)") auto

declare lowerLeft.simps [simp del]

text \<open>
  \<open>computeDistanceMatrix\<close> after its swap, for \<open>n = l1.size()\<close> and \<open>m = l2.size()\<close>:
  the quotient and remainder, \<open>n\<close> rows of \<open>m\<close> zeros appended to the matrix passed in,
  the two diagonal loops and the two passes. \<open>n\<close> and \<open>m\<close> are \<open>int\<close> in the source;
  the model takes it that the sizes fit, and that \<open>n / m\<close> with \<open>m = 0\<close> stops the
  program. The second loop starts at \<open>i = r * (q + 1) \<ge> r\<close>, so \<open>i - r\<close> is not negative,
  and it divides by \<open>q\<close>, which is at least 1 after the swap (were \<open>n < m\<close>, the first
  loop would have read \<open>l1[n]\<close> and failed before).
\<close>

definition bandedMatrix ::
  "(nat \<Rightarrow> real) \<Rightarrow> trajectory \<Rightarrow> trajectory \<Rightarrow> matrix \<Rightarrow> (error + (real \<times> matrix)) option" where
  "bandedMatrix dInit l1 l2 distanceMatrix =
     (let n = length l1; m = length l2 in
      if m = 0 then Some (Inl DivByZero)
      else
        let q = n div m; r = n mod m;
            dm0 = distanceMatrix @ replicate n (replicate m 0) in
        (case fillDiagonal (\<lambda>i. i div (q + 1)) l1 l2 (r * (q + 1) + 1) 0 0 dm0 of
           Inl e \<Rightarrow> Some (Inl e)
         | Inr (diagMax1, dm1) \<Rightarrow>
            (case fillDiagonal (\<lambda>i. (i - r) div q) l1 l2 n (r * (q + 1)) diagMax1 dm1 of
               Inl e \<Rightarrow> Some (Inl e)
             | Inr (diagMax, dm2) \<Rightarrow>
                (case upperRight dInit l1 l2 n m diagMax 0 0 dm2 of
                   None \<Rightarrow> None
                 | Some (Inl e) \<Rightarrow> Some (Inl e)
                 | Some (Inr dm3) \<Rightarrow>
                    (case lowerLeft l1 l2 n m diagMax 0 0 dm3 of
                       None \<Rightarrow> None
                     | Some (Inl e) \<Rightarrow> Some (Inl e)
                     | Some (Inr dm4) \<Rightarrow> Some (Inr (diagMax, dm4)))))))"

text \<open>
  \<open>computeDistanceMatrix\<close> takes \<open>l1\<close>, \<open>l2\<close> and \<open>distanceMatrix\<close> by reference and
  swaps the caller's \<open>l1\<close> and \<open>l2\<close> when \<open>n < m\<close> (lines 58 to 62). The model returns
  the caller's two trajectories as the call leaves them, paired with the outcome of the
  call: \<open>None\<close> when it does not return, \<open>Some (Inl e)\<close> when it fails, and
  \<open>Some (Inr (diagMax, distanceMatrix))\<close>.
\<close>

definition swapIfShorter :: "trajectory \<Rightarrow> trajectory \<Rightarrow> trajectory \<times> trajectory" where
  "swapIfShorter l1 l2 = (if length l1 < length l2 then (l2, l1) else (l1, l2))"

definition computeDistanceMatrix ::
  "(nat \<Rightarrow> real) \<Rightarrow> trajectory \<Rightarrow> trajectory \<Rightarrow> matrix
     \<Rightarrow> (trajectory \<times> trajectory) \<times> (error + (real \<times> matrix)) option" where
  "computeDistanceMatrix dInit l1 l2 distanceMatrix =
     (case swapIfShorter l1 l2 of
        (l1', l2') \<Rightarrow> ((l1', l2'), bandedMatrix dInit l1' l2' distanceMatrix))"

subsection \<open>Frechet.hpp: the coupling matrix\<close>

text \<open>\<open>while (distanceMatrix[i][j] == 0) j++;\<close> (line 141): the loop has no bound on \<open>j\<close>.\<close>

function skipUnset :: "matrix \<Rightarrow> nat \<Rightarrow> nat \<Rightarrow> error + nat" where
  "skipUnset distanceMatrix i j =
     (case mget distanceMatrix i j of
        Inl e \<Rightarrow> Inl e
      | Inr v \<Rightarrow> if v = 0 then skipUnset distanceMatrix i (Suc j) else Inr j)"
  by pat_completeness auto
termination
proof (relation "measure (\<lambda>(distanceMatrix, i, j). length (distanceMatrix ! i) - j)")
  show "wf (measure (\<lambda>(distanceMatrix, i, j). length (distanceMatrix ! i) - j))"
    by simp
next
  fix distanceMatrix :: matrix and i j :: nat and v :: real
  assume "mget distanceMatrix i j = Inr v"
  then have "j < length (distanceMatrix ! i)"
    by (auto simp: mget_def vget_def split: if_splits)
  then show "((distanceMatrix, i, Suc j), (distanceMatrix, i, j))
               \<in> measure (\<lambda>(distanceMatrix, i, j). length (distanceMatrix ! i) - j)"
    by simp
qed

declare skipUnset.simps [simp del]

text \<open>
  The body of the sweep (lines 145 to 158): the value stored in \<open>frechetMatrix[i][j]\<close>.
  \<open>maxT\<close> is \<open>numeric_limits<T>::max()\<close>, which depends on \<open>T\<close> and is a parameter.
  The first test assigns \<open>minimum\<close>, the other two take \<open>std::min\<close>.
\<close>

definition coupleCell :: "real \<Rightarrow> matrix \<Rightarrow> matrix \<Rightarrow> nat \<Rightarrow> nat \<Rightarrow> error + real" where
  "coupleCell maxT distanceMatrix frechetMatrix i j =
     (case (if i > 0 \<and> j > 0 then
              (case mget distanceMatrix (i - 1) (j - 1) of
                 Inl e \<Rightarrow> Inl e
               | Inr v \<Rightarrow> if v \<noteq> 0 then mget frechetMatrix (i - 1) (j - 1)
                          else Inr (maxT - 1))
            else Inr (maxT - 1)) of
        Inl e \<Rightarrow> Inl e
      | Inr minimum1 \<Rightarrow>
         (case (if i > 0 then
                  (case mget distanceMatrix (i - 1) j of
                     Inl e \<Rightarrow> Inl e
                   | Inr v \<Rightarrow>
                       if v \<noteq> 0 then
                         (case mget frechetMatrix (i - 1) j of
                            Inl e \<Rightarrow> Inl e
                          | Inr c \<Rightarrow> Inr (min minimum1 c))
                       else Inr minimum1)
                else Inr minimum1) of
            Inl e \<Rightarrow> Inl e
          | Inr minimum2 \<Rightarrow>
             (case (if j > 0 then
                      (case mget distanceMatrix i (j - 1) of
                         Inl e \<Rightarrow> Inl e
                       | Inr v \<Rightarrow>
                           if v \<noteq> 0 then
                             (case mget frechetMatrix i (j - 1) of
                                Inl e \<Rightarrow> Inl e
                              | Inr c \<Rightarrow> Inr (min minimum2 c))
                           else Inr minimum2)
                    else Inr minimum2) of
                Inl e \<Rightarrow> Inl e
              | Inr minimum \<Rightarrow>
                 (case mget distanceMatrix i j of
                    Inl e \<Rightarrow> Inl e
                  | Inr d \<Rightarrow> Inr (max minimum d)))))"

text \<open>
  \<open>while (distanceMatrix[i][j] != 0 && j < m) { ...; j++; }\<close> (lines 143 to 160): the cell
  is read before \<open>j < m\<close> is tested.
\<close>

function sweepRow :: "real \<Rightarrow> matrix \<Rightarrow> nat \<Rightarrow> nat \<Rightarrow> nat \<Rightarrow> matrix \<Rightarrow> error + matrix" where
  "sweepRow maxT distanceMatrix m i j frechetMatrix =
     (case mget distanceMatrix i j of
        Inl e \<Rightarrow> Inl e
      | Inr v \<Rightarrow>
          if v \<noteq> 0 \<and> j < m then
            (case coupleCell maxT distanceMatrix frechetMatrix i j of
               Inl e \<Rightarrow> Inl e
             | Inr c \<Rightarrow>
                (case mput frechetMatrix i j c of
                   Inl e \<Rightarrow> Inl e
                 | Inr frechetMatrix' \<Rightarrow>
                     sweepRow maxT distanceMatrix m i (Suc j) frechetMatrix'))
          else Inr frechetMatrix)"
  by pat_completeness auto
termination
  by (relation "measure (\<lambda>(maxT, distanceMatrix, m, i, j, frechetMatrix). m - j)") auto

declare sweepRow.simps [simp del]

text \<open>The loop over the rows \<open>i = 1, ..., n - 1\<close> (lines 138 to 161).\<close>

function sweepRows ::
  "real \<Rightarrow> matrix \<Rightarrow> nat \<Rightarrow> nat \<Rightarrow> nat \<Rightarrow> nat \<Rightarrow> matrix \<Rightarrow> error + matrix" where
  "sweepRows maxT distanceMatrix n m i jMin frechetMatrix =
     (if i < n then
        (case skipUnset distanceMatrix i jMin of
           Inl e \<Rightarrow> Inl e
         | Inr j \<Rightarrow>
            (case sweepRow maxT distanceMatrix m i j frechetMatrix of
               Inl e \<Rightarrow> Inl e
             | Inr frechetMatrix' \<Rightarrow>
                 sweepRows maxT distanceMatrix n m (Suc i) j frechetMatrix'))
      else Inr frechetMatrix)"
  by pat_completeness auto
termination
  by (relation "measure (\<lambda>(maxT, distanceMatrix, n, m, i, jMin, frechetMatrix). n - i)") auto

declare sweepRows.simps [simp del]

text \<open>
  \<open>computeFrechetMatrix\<close> after its call of \<open>computeDistanceMatrix\<close>: \<open>n\<close> rows of \<open>m\<close>
  zeros appended to the matrix passed in, \<open>frechetMatrix[0][0] = distanceMatrix[0][0]\<close>,
  and the sweep.
\<close>

definition couplingMatrix ::
  "real \<Rightarrow> nat \<Rightarrow> nat \<Rightarrow> matrix \<Rightarrow> matrix \<Rightarrow> error + matrix" where
  "couplingMatrix maxT n m distanceMatrix frechetMatrix =
     (let fm0 = frechetMatrix @ replicate n (replicate m 0) in
      case mget distanceMatrix 0 0 of
        Inl e \<Rightarrow> Inl e
      | Inr d \<Rightarrow>
         (case mput fm0 0 0 d of
            Inl e \<Rightarrow> Inl e
          | Inr fm1 \<Rightarrow> sweepRows maxT distanceMatrix n m 1 0 fm1))"

definition computeFrechetMatrix ::
  "real \<Rightarrow> (nat \<Rightarrow> real) \<Rightarrow> trajectory \<Rightarrow> trajectory \<Rightarrow> matrix
     \<Rightarrow> (trajectory \<times> trajectory) \<times> (error + matrix) option" where
  "computeFrechetMatrix maxT dInit l1 l2 frechetMatrix =
     (case computeDistanceMatrix dInit l1 l2 [] of
        ((l1', l2'), outcome) \<Rightarrow>
          ((l1', l2'),
           (case outcome of
              None \<Rightarrow> None
            | Some (Inl e) \<Rightarrow> Some (Inl e)
            | Some (Inr (diagMax, distanceMatrix)) \<Rightarrow>
                Some (couplingMatrix maxT (length l1') (length l2')
                        distanceMatrix frechetMatrix))))"

text \<open>
  \<open>frechetDistance\<close> returns \<open>frechetMatrix[l1.size() - 1][l2.size() - 1]\<close>, with the
  sizes of the trajectories as \<open>computeDistanceMatrix\<close> left them. The subtraction is
  unsigned: for an empty trajectory the index is the largest \<open>size_t\<close>, outside every
  vector.
\<close>

definition frechetDistance ::
  "real \<Rightarrow> (nat \<Rightarrow> real) \<Rightarrow> trajectory \<Rightarrow> trajectory
     \<Rightarrow> (trajectory \<times> trajectory) \<times> (error + real) option" where
  "frechetDistance maxT dInit l1 l2 =
     (case computeFrechetMatrix maxT dInit l1 l2 [] of
        ((l1', l2'), outcome) \<Rightarrow>
          ((l1', l2'),
           (case outcome of
              None \<Rightarrow> None
            | Some (Inl e) \<Rightarrow> Some (Inl e)
            | Some (Inr frechetMatrix) \<Rightarrow>
                Some (if l1' = [] \<or> l2' = [] then Inl OutOfRange
                      else mget frechetMatrix (length l1' - 1) (length l2' - 1)))))"

subsection \<open>Frechet.hpp: the sweep with unchecked subscripts\<close>

text \<open>
  The tests of the two loops of the sweep read \<open>distanceMatrix[i][j]\<close> at a column
  that the code has not compared with \<open>m\<close>. With the subscripts of \<open>std::vector\<close>
  unchecked, as in an ordinary build, such a read yields what the memory behind row \<open>i\<close>
  holds, a value that the program does not determine: the parameter \<open>mem i j\<close> of
  \<open>mread\<close>. The functions above, which fail at such a read, are the program with
  checked subscripts; the functions below are the program with these two reads
  unchecked. Their parameter \<open>beyond\<close> gives the memory behind the rows for each
  state of \<open>frechetMatrix\<close>, the one object that the sweep writes, so that the memory
  read may be \<open>frechetMatrix\<close> itself. Every other access stays checked, and the
  subscript of the row, \<open>distanceMatrix[i]\<close>, as well.
\<close>

definition mread :: "(nat \<Rightarrow> nat \<Rightarrow> real) \<Rightarrow> matrix \<Rightarrow> nat \<Rightarrow> nat \<Rightarrow> error + real" where
  "mread mem M i j =
     (case vget M i of
        Inl e \<Rightarrow> Inl e
      | Inr row \<Rightarrow> Inr (if j < length row then row ! j else mem i j))"

text \<open>
  \<open>while (distanceMatrix[i][j] == 0) j++;\<close> (line 141). Nothing bounds \<open>j\<close>, and the
  memory behind the row may hold zeros for ever: the loop is a partial function, \<open>None\<close>
  being a loop that does not end.
\<close>

partial_function (option) skipUnset_unchecked ::
  "(nat \<Rightarrow> nat \<Rightarrow> real) \<Rightarrow> matrix \<Rightarrow> nat \<Rightarrow> nat \<Rightarrow> (error + nat) option" where
  "skipUnset_unchecked mem distanceMatrix i j =
     (case mread mem distanceMatrix i j of
        Inl e \<Rightarrow> Some (Inl e)
      | Inr v \<Rightarrow>
          if v = 0 then skipUnset_unchecked mem distanceMatrix i (Suc j) else Some (Inr j))"

text \<open>
  \<open>while (distanceMatrix[i][j] != 0 && j < m) { ...; j++; }\<close> (lines 143 to 160), the
  cell being read before \<open>j < m\<close> is tested.
\<close>

function sweepRow_unchecked ::
  "real \<Rightarrow> (matrix \<Rightarrow> nat \<Rightarrow> nat \<Rightarrow> real) \<Rightarrow> matrix \<Rightarrow> nat \<Rightarrow> nat \<Rightarrow> nat \<Rightarrow> matrix
     \<Rightarrow> error + matrix" where
  "sweepRow_unchecked maxT beyond distanceMatrix m i j frechetMatrix =
     (case mread (beyond frechetMatrix) distanceMatrix i j of
        Inl e \<Rightarrow> Inl e
      | Inr v \<Rightarrow>
          if v \<noteq> 0 \<and> j < m then
            (case coupleCell maxT distanceMatrix frechetMatrix i j of
               Inl e \<Rightarrow> Inl e
             | Inr c \<Rightarrow>
                (case mput frechetMatrix i j c of
                   Inl e \<Rightarrow> Inl e
                 | Inr frechetMatrix' \<Rightarrow>
                     sweepRow_unchecked maxT beyond distanceMatrix m i (Suc j) frechetMatrix'))
          else Inr frechetMatrix)"
  by pat_completeness auto
termination
  by (relation "measure (\<lambda>(maxT, beyond, distanceMatrix, m, i, j, frechetMatrix). m - j)") auto

declare sweepRow_unchecked.simps [simp del]

text \<open>The loop over the rows \<open>i = 1, ..., n - 1\<close> (lines 138 to 161).\<close>

function sweepRows_unchecked ::
  "real \<Rightarrow> (matrix \<Rightarrow> nat \<Rightarrow> nat \<Rightarrow> real) \<Rightarrow> matrix \<Rightarrow> nat \<Rightarrow> nat \<Rightarrow> nat \<Rightarrow> nat \<Rightarrow> matrix
     \<Rightarrow> (error + matrix) option" where
  "sweepRows_unchecked maxT beyond distanceMatrix n m i jMin frechetMatrix =
     (if i < n then
        (case skipUnset_unchecked (beyond frechetMatrix) distanceMatrix i jMin of
           None \<Rightarrow> None
         | Some (Inl e) \<Rightarrow> Some (Inl e)
         | Some (Inr j) \<Rightarrow>
            (case sweepRow_unchecked maxT beyond distanceMatrix m i j frechetMatrix of
               Inl e \<Rightarrow> Some (Inl e)
             | Inr frechetMatrix' \<Rightarrow>
                 sweepRows_unchecked maxT beyond distanceMatrix n m (Suc i) j frechetMatrix'))
      else Some (Inr frechetMatrix))"
  by pat_completeness auto
termination
  by (relation
        "measure (\<lambda>(maxT, beyond, distanceMatrix, n, m, i, jMin, frechetMatrix). n - i)") auto

declare sweepRows_unchecked.simps [simp del]

text \<open>
  \<open>computeFrechetMatrix\<close> after its call of \<open>computeDistanceMatrix\<close>, the function
  itself, and \<open>frechetDistance\<close>, as above.
\<close>

definition couplingMatrix_unchecked ::
  "real \<Rightarrow> (matrix \<Rightarrow> nat \<Rightarrow> nat \<Rightarrow> real) \<Rightarrow> nat \<Rightarrow> nat \<Rightarrow> matrix \<Rightarrow> matrix
     \<Rightarrow> (error + matrix) option" where
  "couplingMatrix_unchecked maxT beyond n m distanceMatrix frechetMatrix =
     (let fm0 = frechetMatrix @ replicate n (replicate m 0) in
      case mget distanceMatrix 0 0 of
        Inl e \<Rightarrow> Some (Inl e)
      | Inr d \<Rightarrow>
         (case mput fm0 0 0 d of
            Inl e \<Rightarrow> Some (Inl e)
          | Inr fm1 \<Rightarrow> sweepRows_unchecked maxT beyond distanceMatrix n m 1 0 fm1))"

definition computeFrechetMatrix_unchecked ::
  "real \<Rightarrow> (nat \<Rightarrow> real) \<Rightarrow> (matrix \<Rightarrow> nat \<Rightarrow> nat \<Rightarrow> real) \<Rightarrow> trajectory \<Rightarrow> trajectory \<Rightarrow> matrix
     \<Rightarrow> (trajectory \<times> trajectory) \<times> (error + matrix) option" where
  "computeFrechetMatrix_unchecked maxT dInit beyond l1 l2 frechetMatrix =
     (case computeDistanceMatrix dInit l1 l2 [] of
        ((l1', l2'), outcome) \<Rightarrow>
          ((l1', l2'),
           (case outcome of
              None \<Rightarrow> None
            | Some (Inl e) \<Rightarrow> Some (Inl e)
            | Some (Inr (diagMax, distanceMatrix)) \<Rightarrow>
                couplingMatrix_unchecked maxT beyond (length l1') (length l2')
                  distanceMatrix frechetMatrix)))"

definition frechetDistance_unchecked ::
  "real \<Rightarrow> (nat \<Rightarrow> real) \<Rightarrow> (matrix \<Rightarrow> nat \<Rightarrow> nat \<Rightarrow> real) \<Rightarrow> trajectory \<Rightarrow> trajectory
     \<Rightarrow> (trajectory \<times> trajectory) \<times> (error + real) option" where
  "frechetDistance_unchecked maxT dInit beyond l1 l2 =
     (case computeFrechetMatrix_unchecked maxT dInit beyond l1 l2 [] of
        ((l1', l2'), outcome) \<Rightarrow>
          ((l1', l2'),
           (case outcome of
              None \<Rightarrow> None
            | Some (Inl e) \<Rightarrow> Some (Inl e)
            | Some (Inr frechetMatrix) \<Rightarrow>
                Some (if l1' = [] \<or> l2' = [] then Inl OutOfRange
                      else mget frechetMatrix (length l1' - 1) (length l2' - 1)))))"

text \<open>
  \<open>std::numeric_limits<double>::max()\<close>, the value of \<open>maxT\<close> for \<open>T = double\<close>; the
  examples below take it.
\<close>

definition maxDouble :: real where
  "maxDouble = 2 ^ 1024 - 2 ^ 971"


subsection \<open>What the specification calls the distances\<close>

text \<open>
  The squared Euclidean distance and the Euclidean distance of two points, the directed
  Hausdorff distance of two trajectories, and the data model's condition that all points
  have one dimension, as the specification words them.
\<close>

definition sqEuclid :: "point \<Rightarrow> point \<Rightarrow> real" where
  "sqEuclid p q = (\<Sum>k<length p. (p ! k - q ! k)\<^sup>2)"

definition euclid :: "point \<Rightarrow> point \<Rightarrow> real" where
  "euclid p q = sqrt (sqEuclid p q)"

definition directedHausdorff :: "trajectory \<Rightarrow> trajectory \<Rightarrow> real" where
  "directedHausdorff A B = sqrt (Max ((\<lambda>p. Min (sqEuclid p ` set B)) ` set A))"

definition uniformDim :: "nat \<Rightarrow> trajectory \<Rightarrow> bool" where
  "uniformDim k A = (\<forall>p \<in> set A. length p = k)"

text \<open>
  The column of the core diagonal in row \<open>i\<close>, for \<open>n\<close> rows and \<open>m\<close> columns, as the
  specification gives it: with \<open>q = n div m\<close> and \<open>r = n mod m\<close>, it is
  \<open>i div (q + 1)\<close> for \<open>i \<le> r * (q + 1)\<close> and \<open>(i - r) div q\<close> for \<open>i > r * (q + 1)\<close>.
\<close>

definition coreColumn :: "nat \<Rightarrow> nat \<Rightarrow> nat \<Rightarrow> nat" where
  "coreColumn n m i =
     (let q = n div m; r = n mod m in
      if i \<le> r * (q + 1) then i div (q + 1) else (i - r) div q)"


text \<open>
  The recurrence of the coupling matrix. \<open>predCouplings\<close> lists the couplings of those
  of the cells \<open>(i - 1, j - 1)\<close>, \<open>(i - 1, j)\<close> and \<open>(i, j - 1)\<close> that exist and whose
  distance entry is set, that is, non-zero; \<open>couplingRule\<close> is the maximum of the
  distance of the cell and the least of these couplings, the sentinel \<open>maxT - 1\<close>
  standing in when there is none.
\<close>

definition predCouplings :: "matrix \<Rightarrow> matrix \<Rightarrow> nat \<Rightarrow> nat \<Rightarrow> real list" where
  "predCouplings dm fm i j =
     (if 0 < i \<and> 0 < j \<and> dm ! (i - 1) ! (j - 1) \<noteq> 0 then [fm ! (i - 1) ! (j - 1)] else [])
     @ (if 0 < i \<and> dm ! (i - 1) ! j \<noteq> 0 then [fm ! (i - 1) ! j] else [])
     @ (if 0 < j \<and> dm ! i ! (j - 1) \<noteq> 0 then [fm ! i ! (j - 1)] else [])"

definition couplingRule :: "real \<Rightarrow> matrix \<Rightarrow> matrix \<Rightarrow> nat \<Rightarrow> nat \<Rightarrow> real" where
  "couplingRule maxT dm fm i j =
     max (dm ! i ! j)
       (if predCouplings dm fm i j = [] then maxT - 1
        else Min (set (predCouplings dm fm i j)))"


subsection \<open>Auxiliary notions of the proofs\<close>

text \<open>
  \<open>lower\<close> is the update of \<open>cMin\<close> in the inner loop of \<open>hausdorffDistance\<close>, and
  \<open>nearest b p\<close> the squared distance from \<open>p\<close> to the point of \<open>b\<close> nearest to it.
\<close>

definition lower :: "real \<Rightarrow> real option \<Rightarrow> real option" where
  "lower d cMin = (if below d cMin then Some d else cMin)"

definition nearest :: "trajectory \<Rightarrow> point \<Rightarrow> real" where
  "nearest b p = Min (sqEuclid p ` set b)"

text \<open>
  \<open>shape n m M\<close>: the matrix has \<open>n\<close> rows of \<open>m\<close> entries. \<open>fits l1 l2\<close>: no point of
  \<open>l1\<close> has more coordinates than a point of \<open>l2\<close>, so that \<open>distanceMetric\<close> of a
  point of \<open>l1\<close> and a point of \<open>l2\<close> stays inside the second point.
\<close>

definition shape :: "nat \<Rightarrow> nat \<Rightarrow> matrix \<Rightarrow> bool" where
  "shape n m M = (length M = n \<and> (\<forall>i < n. length (M ! i) = m))"

definition fits :: "trajectory \<Rightarrow> trajectory \<Rightarrow> bool" where
  "fits l1 l2 = (\<forall>p \<in> set l1. \<forall>q \<in> set l2. length p \<le> length q)"

text \<open>\<open>bounded S n m M\<close>: no entry of the \<open>n\<close> rows and \<open>m\<close> columns of \<open>M\<close> exceeds \<open>S\<close>.\<close>

definition bounded :: "real \<Rightarrow> nat \<Rightarrow> nat \<Rightarrow> matrix \<Rightarrow> bool" where
  "bounded S n m M = (\<forall>i < n. \<forall>j < m. M ! i ! j \<le> S)"

section \<open>Properties of the point distance\<close>

lemma sumSquares_in_range:
  "length a \<le> length b \<Longrightarrow>
     sumSquares a b idx s = Inr (s + (\<Sum>k = idx..<length a. (a ! k - b ! k)\<^sup>2))"
proof (induction a b idx s rule: sumSquares.induct)
  case (1 a b idx s)
  show ?case
  proof (cases "idx < length a")
    case True
    then have get: "vget b idx = Inr (b ! idx)"
      using "1.prems" by (simp add: vget_def)
    have "sumSquares a b idx s
            = sumSquares a b (Suc idx) (s + (a ! idx - b ! idx) * (a ! idx - b ! idx))"
      using True get by (subst sumSquares.simps) simp
    also have "\<dots> = Inr (s + (a ! idx - b ! idx) * (a ! idx - b ! idx)
                        + (\<Sum>k = Suc idx..<length a. (a ! k - b ! k)\<^sup>2))"
      using "1.IH" [OF True get] "1.prems" by simp
    also have "\<dots> = Inr (s + (\<Sum>k = idx..<length a. (a ! k - b ! k)\<^sup>2))"
      using True by (simp add: sum.atLeast_Suc_lessThan power2_eq_square)
    finally show ?thesis .
  next
    case False
    then show ?thesis by (subst sumSquares.simps) simp
  qed
qed

lemma sumSquares_out_of_range:
  "length b < length a \<Longrightarrow> idx \<le> length b \<Longrightarrow> sumSquares a b idx s = Inl OutOfRange"
proof (induction a b idx s rule: sumSquares.induct)
  case (1 a b idx s)
  show ?case
  proof (cases "idx < length b")
    case True
    then have get: "vget b idx = Inr (b ! idx)" by (simp add: vget_def)
    have "sumSquares a b idx s
            = sumSquares a b (Suc idx) (s + (a ! idx - b ! idx) * (a ! idx - b ! idx))"
      using True get "1.prems" by (subst sumSquares.simps) simp
    also have "\<dots> = Inl OutOfRange"
      using "1.IH" [OF _ get] True "1.prems" by simp
    finally show ?thesis .
  next
    case False
    then have "idx = length b" using "1.prems" by simp
    then show ?thesis
      using "1.prems" by (subst sumSquares.simps) (simp add: vget_def)
  qed
qed

lemma sumSquares_sqEuclid:
  "length a \<le> length b \<Longrightarrow> sumSquares a b 0 0 = Inr (sqEuclid a b)"
  by (simp add: sumSquares_in_range sqEuclid_def atLeast0LessThan)

lemma sqEuclid_nonneg: "0 \<le> sqEuclid p q"
  by (simp add: sqEuclid_def sum_nonneg)

lemma distanceMetric_closed:
  "distanceMetric a b =
     (if length a \<le> length b then Inr (euclid a b) else Inl OutOfRange)"
  by (simp add: distanceMetric_def euclid_def sumSquares_sqEuclid sumSquares_out_of_range)


section \<open>The Hausdorff distance\<close>

lemma foldl_lower_Some:
  "foldl (\<lambda>c j. lower (D j) c) (Some c0) ibs = Some (Min (insert c0 (D ` set ibs)))"
proof (induction ibs arbitrary: c0)
  case Nil
  then show ?case by simp
next
  case (Cons j ibs)
  have step: "lower (D j) (Some c0) = Some (min (D j) c0)"
    by (simp add: lower_def below_def min_def)
  have fin: "finite (D ` set ibs)" by simp
  have "Min (insert (min (D j) c0) (D ` set ibs)) = Min (insert c0 (insert (D j) (D ` set ibs)))"
  proof (cases "D ` set ibs = {}")
    case True
    then show ?thesis by (simp add: min.commute)
  next
    case False
    have "Min (insert (min (D j) c0) (D ` set ibs)) = min (min (D j) c0) (Min (D ` set ibs))"
      using fin False by (rule Min_insert)
    moreover have "Min (insert c0 (insert (D j) (D ` set ibs))) = min c0 (Min (insert (D j) (D ` set ibs)))"
      by (rule Min_insert) (use fin in simp_all)
    moreover have "Min (insert (D j) (D ` set ibs)) = min (D j) (Min (D ` set ibs))"
      using fin False by (rule Min_insert)
    ultimately show ?thesis by (simp only: min.commute min.left_commute min.assoc)
  qed
  then have "Some (Min (insert (min (D j) c0) (D ` set ibs))) = Some (Min (insert c0 (D ` set (j # ibs))))"
    by simp
  moreover have "foldl (\<lambda>c j. lower (D j) c) (Some c0) (j # ibs)
                   = foldl (\<lambda>c j. lower (D j) c) (Some (min (D j) c0)) ibs"
    using step by simp
  ultimately show ?case using Cons.IH [of "min (D j) c0"] by (simp only:)
qed

lemma foldl_lower_None:
  assumes "ibs \<noteq> []"
  shows "foldl (\<lambda>c j. lower (D j) c) None ibs = Some (Min (D ` set ibs))"
proof (cases ibs)
  case Nil
  then show ?thesis using assms by simp
next
  case (Cons j rest)
  have "lower (D j) None = Some (D j)" by (simp add: lower_def below_def)
  then show ?thesis using Cons foldl_lower_Some [of D "D j" rest] by simp
qed

lemma innerLoop_no_break:
  assumes "indexA < length a"
    and "\<forall>j \<in> set ibs. j < length b \<and> length (a ! indexA) \<le> length (b ! j)"
    and "\<forall>j \<in> set ibs. \<not> sqEuclid (a ! indexA) (b ! j) < cMax"
  shows "innerLoop a b indexA cMax ibs cMin
           = Inr (foldl (\<lambda>c j. lower (sqEuclid (a ! indexA) (b ! j)) c) cMin ibs, False)"
  using assms
  by (induction ibs arbitrary: cMin) (simp_all add: vget_def sumSquares_sqEuclid lower_def)

lemma innerLoop_break:
  assumes "indexA < length a"
    and "\<forall>j \<in> set ibs. j < length b \<and> length (a ! indexA) \<le> length (b ! j)"
    and "\<exists>j \<in> set ibs. sqEuclid (a ! indexA) (b ! j) < cMax"
  shows "\<exists>c. innerLoop a b indexA cMax ibs cMin = Inr (c, True)"
  using assms
  by (induction ibs arbitrary: cMin) (auto simp add: vget_def sumSquares_sqEuclid)

lemma outer_step:
  assumes ia: "indexA < length a"
    and ib: "set ibs = {..<length b}" and ne: "b \<noteq> []"
    and dims: "\<forall>j < length b. length (a ! indexA) \<le> length (b ! j)"
    and run: "innerLoop a b indexA cMax ibs None = Inr (cMin, br)"
  shows "(case cMin of None \<Rightarrow> cMax | Some c \<Rightarrow> if c \<ge> cMax \<and> \<not> br then c else cMax)
           = max cMax (nearest b (a ! indexA))"
proof -
  let ?D = "\<lambda>j. sqEuclid (a ! indexA) (b ! j)"
  have ok: "\<forall>j \<in> set ibs. j < length b \<and> length (a ! indexA) \<le> length (b ! j)"
    using ib dims by auto
  have img: "?D ` set ibs = sqEuclid (a ! indexA) ` set b"
  proof -
    have "set b = (!) b ` {..<length b}"
      by (auto simp: set_conv_nth)
    then show ?thesis using ib by (simp add: image_image)
  qed
  have "0 \<in> {..<length b}" using ne by simp
  then have "0 \<in> set ibs" by (simp only: ib)
  then have nonempty: "ibs \<noteq> []" by (cases ibs) simp_all
  show ?thesis
  proof (cases "\<exists>j \<in> set ibs. ?D j < cMax")
    case True
    then obtain c where "innerLoop a b indexA cMax ibs None = Inr (c, True)"
      using innerLoop_break [OF ia ok] by blast
    with run have br: "br" by simp
    from True obtain j where j: "j \<in> set ibs" "?D j < cMax" by blast
    from j(1) have "Min (?D ` set ibs) \<le> ?D j" by simp
    with \<open>?D j < cMax\<close> have "Min (?D ` set ibs) < cMax" by simp
    then have "nearest b (a ! indexA) < cMax" by (simp add: nearest_def img)
    then show ?thesis using br by (simp split: option.splits)
  next
    case False
    then have nb: "\<forall>j \<in> set ibs. \<not> ?D j < cMax" by blast
    have "innerLoop a b indexA cMax ibs None = Inr (Some (Min (?D ` set ibs)), False)"
      using innerLoop_no_break [OF ia ok nb, of None] foldl_lower_None [OF nonempty, of ?D]
      by simp
    then have res: "cMin = Some (nearest b (a ! indexA))" "\<not> br"
      using run by (simp_all add: nearest_def img)
    have "cMax \<le> Min (?D ` set ibs)"
      using nb nonempty by (simp add: not_less)
    then have "cMax \<le> nearest b (a ! indexA)" by (simp add: nearest_def img)
    then show ?thesis using res by simp
  qed
qed


lemma innerLoop_returns:
  assumes "indexA < length a"
    and "\<forall>j \<in> set ibs. j < length b \<and> length (a ! indexA) \<le> length (b ! j)"
  shows "\<exists>cMin' br. innerLoop a b indexA cMax ibs cMin = Inr (cMin', br)"
proof (cases "\<exists>j \<in> set ibs. sqEuclid (a ! indexA) (b ! j) < cMax")
  case True
  then show ?thesis using innerLoop_break [OF assms] by blast
next
  case False
  then have "\<forall>j \<in> set ibs. \<not> sqEuclid (a ! indexA) (b ! j) < cMax" by blast
  then show ?thesis using innerLoop_no_break [OF assms] by blast
qed

lemma Max_insert_max:
  assumes "finite S"
  shows "Max (insert (max c x) S) = Max (insert c (insert x S))"
proof (cases "S = {}")
  case True
  then show ?thesis by (simp add: max.commute)
next
  case False
  have "Max (insert (max c x) S) = max (max c x) (Max S)"
    using assms False by (rule Max_insert)
  moreover have "Max (insert c (insert x S)) = max c (Max (insert x S))"
    by (rule Max_insert) (use assms in simp_all)
  moreover have "Max (insert x S) = max x (Max S)"
    using assms False by (rule Max_insert)
  ultimately show ?thesis by (simp only: max.assoc)
qed

lemma outerLoop_closed:
  assumes ib: "set ibs = {..<length b}" and ne: "b \<noteq> []"
    and dims: "\<forall>i < length a. \<forall>j < length b. length (a ! i) \<le> length (b ! j)"
    and idx: "\<forall>i \<in> set ias. i < length a"
  shows "outerLoop a b ibs cMax ias
           = Inr (Max (insert cMax ((\<lambda>i. nearest b (a ! i)) ` set ias)))"
  using idx
proof (induction ias arbitrary: cMax)
  case Nil
  then show ?case by simp
next
  case (Cons i ias)
  have i: "i < length a" using Cons.prems by simp
  have ok: "\<forall>j \<in> set ibs. j < length b \<and> length (a ! i) \<le> length (b ! j)"
    using ib dims i by simp
  have dimsi: "\<forall>j < length b. length (a ! i) \<le> length (b ! j)"
    using dims i by simp
  obtain cMin br where run: "innerLoop a b i cMax ibs None = Inr (cMin, br)"
    using innerLoop_returns [OF i ok] by blast
  let ?next = "case cMin of None \<Rightarrow> cMax | Some c \<Rightarrow> if c \<ge> cMax \<and> \<not> br then c else cMax"
  have nxt: "?next = max cMax (nearest b (a ! i))"
    using outer_step [OF i ib ne dimsi run] .
  have "outerLoop a b ibs cMax (i # ias) = outerLoop a b ibs ?next ias"
    using run by simp
  also have "\<dots> = Inr (Max (insert (max cMax (nearest b (a ! i))) ((\<lambda>i. nearest b (a ! i)) ` set ias)))"
    using Cons.IH [of ?next] Cons.prems by (simp only: nxt) simp
  also have "\<dots> = Inr (Max (insert cMax ((\<lambda>i. nearest b (a ! i)) ` set (i # ias))))"
    using Max_insert_max [of "(\<lambda>i. nearest b (a ! i)) ` set ias" cMax "nearest b (a ! i)"]
    by simp
  finally show ?case .
qed

lemma isShuffle_set: "isShuffle indices n \<Longrightarrow> set indices = {..<n}"
proof -
  assume "isShuffle indices n"
  then have "set indices = set [0..<n]"
    unfolding isShuffle_def by (rule mset_eq_setD)
  then show ?thesis by (simp add: atLeast0LessThan)
qed

lemma nearest_nonneg: "b \<noteq> [] \<Longrightarrow> 0 \<le> nearest b p"
  by (simp add: nearest_def sqEuclid_nonneg)

lemma uniformDim_fits: "uniformDim k l1 \<Longrightarrow> uniformDim k l2 \<Longrightarrow> fits l1 l2"
  by (simp add: uniformDim_def fits_def)

lemma hausdorff_closed:
  assumes a: "a \<noteq> []" and b: "b \<noteq> []" and fit: "fits a b"
    and sa: "isShuffle indicesA (length a)" and sb: "isShuffle indicesB (length b)"
  shows "hausdorffDistance indicesA indicesB a b = Inr (directedHausdorff a b)"
proof -
  have dims: "\<forall>i < length a. \<forall>j < length b. length (a ! i) \<le> length (b ! j)"
    using fit by (simp add: fits_def)
  have idx: "\<forall>i \<in> set indicesA. i < length a"
    using isShuffle_set [OF sa] by simp
  have seta: "(\<lambda>i. nearest b (a ! i)) ` set indicesA = nearest b ` set a"
  proof -
    have "set a = (!) a ` {..<length a}" by (auto simp: set_conv_nth)
    then show ?thesis using isShuffle_set [OF sa] by (simp add: image_image)
  qed
  have run: "outerLoop a b indicesB 0 indicesA = Inr (Max (insert 0 (nearest b ` set a)))"
    using outerLoop_closed [OF isShuffle_set [OF sb] b dims idx, of 0] by (simp only: seta)
  obtain p where p: "p \<in> set a" using a by (cases a) auto
  have "Max (insert 0 (nearest b ` set a)) = max 0 (Max (nearest b ` set a))"
    by (rule Max_insert) (use p in auto)
  moreover have "0 \<le> Max (nearest b ` set a)"
  proof -
    have "nearest b p \<le> Max (nearest b ` set a)" using p by simp
    then show ?thesis using nearest_nonneg [OF b, of p] by simp
  qed
  ultimately have "Max (insert 0 (nearest b ` set a)) = Max (nearest b ` set a)" by simp
  moreover have "nearest b = (\<lambda>p. Min (sqEuclid p ` set b))"
    by (rule ext) (simp add: nearest_def)
  ultimately show ?thesis
    using a b run by (simp add: hausdorffDistance_def directedHausdorff_def)
qed



lemma sumSquares_error: "sumSquares a b idx s = Inl e \<Longrightarrow> e = OutOfRange"
proof (induction a b idx s rule: sumSquares.induct)
  case (1 a b idx s)
  show ?case
  proof (cases "idx < length a")
    case False
    then show ?thesis using "1.prems" by (subst (asm) sumSquares.simps) simp
  next
    case True
    show ?thesis
    proof (cases "idx < length b")
      case False
      then show ?thesis
        using "1.prems" True by (subst (asm) sumSquares.simps) (simp add: vget_def)
    next
      case inb: True
      then have get: "vget b idx = Inr (b ! idx)" by (simp add: vget_def)
      have "sumSquares a b (Suc idx) (s + (a ! idx - b ! idx) * (a ! idx - b ! idx)) = Inl e"
        using "1.prems" True get by (subst (asm) sumSquares.simps) simp
      then show ?thesis using "1.IH" [OF True get] by simp
    qed
  qed
qed

lemma innerLoop_error:
  "innerLoop a b indexA cMax ibs cMin = Inl e \<Longrightarrow> e = OutOfRange"
proof (induction ibs arbitrary: cMin)
  case Nil
  then show ?case by simp
next
  case (Cons j ibs)
  then show ?case
    by (auto simp: vget_def split: if_splits sum.splits dest: sumSquares_error)
qed

lemma outerLoop_error:
  "outerLoop a b ibs cMax ias = Inl e \<Longrightarrow> e = OutOfRange"
proof (induction ias arbitrary: cMax)
  case Nil
  then show ?case by simp
next
  case (Cons i ias)
  then show ?case
    by (auto split: sum.splits prod.splits dest: innerLoop_error)
qed

lemma sqEuclid_2 [simp]: "sqEuclid [x1, x2] [y1, y2] = (x1 - y1)\<^sup>2 + (x2 - y2)\<^sup>2"
  by (simp add: sqEuclid_def lessThan_Suc numeral_2_eq_2)

lemma isShuffle_10: "isShuffle [1, 0] (length [p, q])"
  by (simp add: isShuffle_def upt_rec)

lemma isShuffle_01: "isShuffle [0, 1] (length [p, q])"
  by (simp add: isShuffle_def upt_rec)

lemma isShuffle_0: "isShuffle [0] (length [p])"
  by (simp add: isShuffle_def)

lemma uniformDim_scenario2:
  "uniformDim 2 [[0, 0], [1, 0]]" "uniformDim 2 [[0, 1], [1, 1]]"
  by (simp_all add: uniformDim_def)

text \<open>
  C1. For non-empty trajectories whose points all have one dimension, and whatever the
  two shuffled index orders are, \<open>hausdorffDistance\<close> returns the directed Hausdorff
  distance from \<open>a\<close> to \<open>b\<close>: the square root of the maximum over the points of \<open>a\<close> of
  the minimum over the points of \<open>b\<close> of the squared Euclidean distance.
\<close>

theorem C1_hausdorff_directed:
  assumes "a \<noteq> []" and "b \<noteq> []"
    and "uniformDim k a" and "uniformDim k b"
    and "isShuffle indicesA (length a)" and "isShuffle indicesB (length b)"
  shows "hausdorffDistance indicesA indicesB a b = Inr (directedHausdorff a b)"
  using assms(1,2) uniformDim_fits [OF assms(3,4)] assms(5,6) by (rule hausdorff_closed)

theorem C1_hausdorff_directed_witness:
  "uniformDim 2 [[0, 0], [1, 0]] \<and> uniformDim 2 [[0, 1], [1, 1]]
     \<and> isShuffle [1, 0] (length [[0, 0], [1, 0 :: real]])
     \<and> isShuffle [0, 1] (length [[0, 1], [1, 1 :: real]])
     \<and> hausdorffDistance [1, 0] [0, 1] [[0, 0], [1, 0]] [[0, 1], [1, 1]]
           = Inr (directedHausdorff [[0, 0], [1, 0]] [[0, 1], [1, 1]])
     \<and> directedHausdorff [[0, 0], [1, 0]] [[0, 1], [1, 1]] = 1"
proof -
  have "hausdorffDistance [1, 0] [0, 1] [[0, 0], [1, 0]] [[0, 1], [1, 1]]
          = Inr (directedHausdorff [[0, 0], [1, 0]] [[0, 1], [1, 1]])"
    using C1_hausdorff_directed
            [OF _ _ uniformDim_scenario2 isShuffle_10 isShuffle_01] by simp
  moreover have "directedHausdorff [[0, 0], [1, 0]] [[0, 1], [1, 1]] = 1"
    by (simp add: directedHausdorff_def)
  ultimately show ?thesis
    using uniformDim_scenario2 isShuffle_10 isShuffle_01 by simp
qed

text \<open>
  C6. For non-empty trajectories whose points all have one dimension, any two pairs of
  shuffled index orders give the same result: the early break of the inner loop and the
  guarded update of \<open>cMax\<close> change the work, never the value returned.
\<close>

theorem C6_hausdorff_order_independent:
  assumes "a \<noteq> []" and "b \<noteq> []"
    and "uniformDim k a" and "uniformDim k b"
    and "isShuffle indicesA (length a)" and "isShuffle indicesB (length b)"
    and "isShuffle indicesA' (length a)" and "isShuffle indicesB' (length b)"
  shows "hausdorffDistance indicesA indicesB a b = hausdorffDistance indicesA' indicesB' a b"
proof -
  have fit: "fits a b" using assms(3,4) by (rule uniformDim_fits)
  have "hausdorffDistance indicesA indicesB a b = Inr (directedHausdorff a b)"
    using assms(1,2) fit assms(5,6) by (rule hausdorff_closed)
  moreover have "hausdorffDistance indicesA' indicesB' a b = Inr (directedHausdorff a b)"
    using assms(1,2) fit assms(7,8) by (rule hausdorff_closed)
  ultimately show ?thesis by simp
qed

theorem C6_hausdorff_order_independent_witness:
  "isShuffle [1, 0] (length [[0, 0], [1, 0 :: real]])
     \<and> isShuffle [0, 1] (length [[0, 0], [1, 0 :: real]])
     \<and> hausdorffDistance [1, 0] [0, 1] [[0, 0], [1, 0]] [[0, 1], [1, 1]]
          = hausdorffDistance [0, 1] [1, 0] [[0, 0], [1, 0]] [[0, 1], [1, 1]]"
  using C6_hausdorff_order_independent
          [OF _ _ uniformDim_scenario2 isShuffle_10 isShuffle_01 isShuffle_01 isShuffle_10]
        isShuffle_10 isShuffle_01
  by simp

text \<open>
  C7. \<open>hausdorffDistance\<close> throws its \<open>std::runtime_error\<close> exactly when one of the two
  trajectories is empty, and then returns no scalar; for non-empty trajectories it
  returns a scalar, provided no point of \<open>a\<close> has more coordinates than a point of \<open>b\<close>
  (as when all points have one dimension), so that no point is read outside its
  storage.
\<close>

theorem C7_hausdorff_empty_input:
  "(hausdorffDistance indicesA indicesB a b = Inl EmptyInput \<longleftrightarrow> a = [] \<or> b = [])
     \<and> (a = [] \<or> b = [] \<longrightarrow> (\<forall>x. hausdorffDistance indicesA indicesB a b \<noteq> Inr x))
     \<and> (a \<noteq> [] \<and> b \<noteq> [] \<and> fits a b
          \<and> isShuffle indicesA (length a) \<and> isShuffle indicesB (length b)
         \<longrightarrow> (\<exists>x. hausdorffDistance indicesA indicesB a b = Inr x))"
proof (intro conjI impI)
  show "hausdorffDistance indicesA indicesB a b = Inl EmptyInput \<longleftrightarrow> a = [] \<or> b = []"
  proof
    assume raised: "hausdorffDistance indicesA indicesB a b = Inl EmptyInput"
    show "a = [] \<or> b = []"
    proof (rule ccontr)
      assume "\<not> (a = [] \<or> b = [])"
      then have "outerLoop a b indicesB 0 indicesA = Inl EmptyInput"
        using raised by (simp add: hausdorffDistance_def split: sum.splits)
      then show False using outerLoop_error by blast
    qed
  next
    assume "a = [] \<or> b = []"
    then show "hausdorffDistance indicesA indicesB a b = Inl EmptyInput"
      by (simp add: hausdorffDistance_def)
  qed
next
  assume "a = [] \<or> b = []"
  then show "\<forall>x. hausdorffDistance indicesA indicesB a b \<noteq> Inr x"
    by (simp add: hausdorffDistance_def)
next
  assume "a \<noteq> [] \<and> b \<noteq> [] \<and> fits a b
            \<and> isShuffle indicesA (length a) \<and> isShuffle indicesB (length b)"
  then show "\<exists>x. hausdorffDistance indicesA indicesB a b = Inr x"
    using hausdorff_closed by blast
qed

theorem C7_hausdorff_empty_input_witness:
  "hausdorffDistance [] [0] [] [[0]] = Inl EmptyInput
     \<and> hausdorffDistance [0] [] [[0]] [] = Inl EmptyInput
     \<and> (\<exists>x. hausdorffDistance [1, 0] [0, 1] [[0, 0], [1, 0]] [[0, 1], [1, 1]] = Inr x)"
proof -
  have "hausdorffDistance [] [0] [] [[0]] = Inl EmptyInput"
    using C7_hausdorff_empty_input [of "[]" "[0]" "[]" "[[0]]"] by simp
  moreover have "hausdorffDistance [0] [] [[0]] [] = Inl EmptyInput"
    using C7_hausdorff_empty_input [of "[0]" "[]" "[[0]]" "[]"] by simp
  moreover have "\<exists>x. hausdorffDistance [1, 0] [0, 1] [[0, 0], [1, 0]] [[0, 1], [1, 1]] = Inr x"
    using C7_hausdorff_empty_input
            [of "[1, 0]" "[0, 1]" "[[0, 0], [1, 0]]" "[[0, 1], [1, 1]]"]
          uniformDim_fits [OF uniformDim_scenario2]
          isShuffle_10 [of "[0, 0]" "[1, 0 :: real]"]
          isShuffle_01 [of "[0, 1]" "[1, 1 :: real]"]
    by simp
  ultimately show ?thesis by simp
qed

text \<open>
  C8, as the code has it. \<open>distanceMetric\<close> checks no dimension. It runs over the
  coordinates of its first point: when the second point has at least as many
  coordinates, the result is the Euclidean distance between the first point and the
  leading coordinates of the second; when the second point has fewer, the second point
  is read outside its storage. No precondition error exists.
\<close>

theorem C8_distanceMetric_unchecked:
  "distanceMetric a b =
     (if length a \<le> length b then Inr (euclid a b) else Inl OutOfRange)"
  by (rule distanceMetric_closed)

theorem C8_distanceMetric_unchecked_witness:
  "distanceMetric [0, 0] [0, 0, 5] = Inr (euclid [0, 0] [0, 0, 5])
     \<and> distanceMetric [0, 0, 5] [0, 0] = Inl OutOfRange"
  using C8_distanceMetric_unchecked [of "[0, 0]" "[0, 0, 5]"]
        C8_distanceMetric_unchecked [of "[0, 0, 5]" "[0, 0]"]
  by simp

text \<open>
  C8, as the specification states it, fails: a 2-dimensional point compared with a
  3-dimensional one gives the number 0, from \<open>distanceMetric\<close> and from
  \<open>hausdorffDistance\<close> alike.
\<close>

theorem C8_dimension_mismatch_counterexample:
  "length [0, 0 :: real] \<noteq> length [0, 0, 5 :: real]
     \<and> distanceMetric [0, 0] [0, 0, 5] = Inr 0
     \<and> hausdorffDistance [0] [0] [[0, 0]] [[0, 0, 5]] = Inr 0"
  by (simp add: distanceMetric_closed euclid_def sqEuclid_def lessThan_Suc numeral_2_eq_2
        hausdorffDistance_def vget_def sumSquares_sqEuclid below_def)


section \<open>The banded distance matrix\<close>

lemma shape_zeros: "shape n m (replicate n (replicate m 0))"
  by (simp add: shape_def)

lemma mput_shape:
  assumes "shape n m M" "i < n" "j < m"
  shows "mput M i j v = Inr (M[i := (M ! i)[j := v]])"
    and "shape n m (M[i := (M ! i)[j := v]])"
    and "\<And>i' j'. i' < n \<Longrightarrow> j' < m \<Longrightarrow>
           M[i := (M ! i)[j := v]] ! i' ! j' = (if i' = i \<and> j' = j then v else M ! i' ! j')"
proof -
  show "mput M i j v = Inr (M[i := (M ! i)[j := v]])"
    using assms by (simp add: mput_def shape_def)
  show "shape n m (M[i := (M ! i)[j := v]])"
    using assms by (simp add: shape_def nth_list_update)
  fix i' j' assume "i' < n" "j' < m"
  then show "M[i := (M ! i)[j := v]] ! i' ! j' = (if i' = i \<and> j' = j then v else M ! i' ! j')"
    using assms by (simp add: shape_def nth_list_update)
qed

lemma mget_shape: "shape n m M \<Longrightarrow> i < n \<Longrightarrow> j < m \<Longrightarrow> mget M i j = Inr (M ! i ! j)"
  by (simp add: mget_def vget_def shape_def)

lemma pointDistance_closed:
  assumes "fits l1 l2" "i < length l1" "j < length l2"
  shows "pointDistance l1 l2 i j = Inr (euclid (l1 ! i) (l2 ! j))"
  using assms by (simp add: pointDistance_def vget_def distanceMetric_closed fits_def)

lemma fillDiagonal_closed:
  assumes "shape (length l1) (length l2) dm" and "fits l1 l2"
    and "bound \<le> length l1" and "\<forall>i. i0 \<le> i \<and> i < bound \<longrightarrow> column i < length l2"
  shows "\<exists>dm'. fillDiagonal column l1 l2 bound i0 diagMax dm
            = Inr (Max (insert diagMax ((\<lambda>i. euclid (l1 ! i) (l2 ! column i)) ` {i0..<bound})), dm')
          \<and> shape (length l1) (length l2) dm'
          \<and> (\<forall>i < length l1. \<forall>j < length l2. dm' ! i ! j =
                (if i0 \<le> i \<and> i < bound \<and> j = column i then euclid (l1 ! i) (l2 ! j)
                 else dm ! i ! j))"
  using assms
proof (induction column l1 l2 bound i0 diagMax dm rule: fillDiagonal.induct)
  case (1 column l1 l2 bound i diagMax dm)
  let ?n = "length l1" and ?m = "length l2"
  let ?f = "\<lambda>i. euclid (l1 ! i) (l2 ! column i)"
  show ?case
  proof (cases "i < bound")
    case False
    then have "{i..<bound} = {}" by simp
    then show ?thesis using False "1.prems"(1) by (subst fillDiagonal.simps) simp
  next
    case True
    have i: "i < ?n" using True "1.prems"(3) by simp
    have j: "column i < ?m" using True "1.prems"(4) by simp
    have pd: "pointDistance l1 l2 i (column i) = Inr (?f i)"
      using pointDistance_closed [OF "1.prems"(2) i j] .
    let ?dm1 = "dm[i := (dm ! i)[column i := ?f i]]"
    have put: "mput dm i (column i) (?f i) = Inr ?dm1"
      using mput_shape(1) [OF "1.prems"(1) i j] .
    have sh1: "shape ?n ?m ?dm1"
      using mput_shape(2) [OF "1.prems"(1) i j] .
    have rng: "\<forall>k. Suc i \<le> k \<and> k < bound \<longrightarrow> column k < ?m"
      using "1.prems"(4) by simp
    obtain dm' where
      run: "fillDiagonal column l1 l2 bound (Suc i) (max (?f i) diagMax) ?dm1
              = Inr (Max (insert (max (?f i) diagMax) (?f ` {Suc i..<bound})), dm')"
      and sh': "shape ?n ?m dm'"
      and cells: "\<forall>a < ?n. \<forall>b < ?m. dm' ! a ! b =
                    (if Suc i \<le> a \<and> a < bound \<and> b = column a then euclid (l1 ! a) (l2 ! b)
                     else ?dm1 ! a ! b)"
      using "1.IH" [OF True pd put sh1 "1.prems"(2) "1.prems"(3) rng] by blast
    have unfold: "fillDiagonal column l1 l2 bound i diagMax dm
                    = fillDiagonal column l1 l2 bound (Suc i) (max (?f i) diagMax) ?dm1"
      using True pd put by (subst fillDiagonal.simps) simp
    have split: "{i..<bound} = insert i {Suc i..<bound}"
      using True by auto
    have mx: "Max (insert (max (?f i) diagMax) (?f ` {Suc i..<bound}))
                = Max (insert diagMax (?f ` {i..<bound}))"
    proof -
      have "Max (insert (max (?f i) diagMax) (?f ` {Suc i..<bound}))
              = Max (insert (?f i) (insert diagMax (?f ` {Suc i..<bound})))"
        by (rule Max_insert_max) simp
      also have "\<dots> = Max (insert diagMax (?f ` {i..<bound}))"
        by (simp only: split image_insert insert_commute)
      finally show ?thesis .
    qed
    have cells': "\<forall>a < ?n. \<forall>b < ?m. dm' ! a ! b =
                    (if i \<le> a \<and> a < bound \<and> b = column a then euclid (l1 ! a) (l2 ! b)
                     else dm ! a ! b)"
    proof (intro allI impI)
      fix a b assume a: "a < ?n" and b: "b < ?m"
      have "?dm1 ! a ! b = (if a = i \<and> b = column i then ?f i else dm ! a ! b)"
        using mput_shape(3) [OF "1.prems"(1) i j a b] .
      then show "dm' ! a ! b =
                    (if i \<le> a \<and> a < bound \<and> b = column a then euclid (l1 ! a) (l2 ! b)
                     else dm ! a ! b)"
        using cells a b True by (cases "a = i") auto
    qed
    show ?thesis
      using unfold run mx sh' cells' by simp
  qed
qed


lemma upperRow_skip:
  "jMin \<le> j \<Longrightarrow> upperRow l1 l2 m jMin diagMax i j d dm = Some (Inr (j, dm))"
  by (subst upperRow.simps) simp

lemma upperRight_skip:
  "jMin \<le> i \<Longrightarrow> upperRight dInit l1 l2 n m diagMax i jMin dm = Some (Inr dm)"
proof (induction dInit l1 l2 n m diagMax i jMin dm rule: upperRight.induct)
  case (1 dInit l1 l2 n m diagMax i jMin dm)
  show ?case
  proof (cases "i < n")
    case False
    then show ?thesis by (subst upperRight.simps) simp
  next
    case True
    have row: "upperRow l1 l2 m jMin diagMax i i (dInit i) dm = Some (Inr (i, dm))"
      using "1.prems" by (rule upperRow_skip)
    have "upperRight dInit l1 l2 n m diagMax i jMin dm
            = upperRight dInit l1 l2 n m diagMax (Suc i) i dm"
      using True row by (subst upperRight.simps) simp
    also have "\<dots> = Some (Inr dm)"
      using "1.IH" [OF True row] by simp
    finally show ?thesis .
  qed
qed

lemma lowerColumn_once:
  assumes "iMin \<le> i"
  shows "lowerColumn l1 l2 n iMin diagMax j i dm =
     (case pointDistance l1 l2 i j of
        Inl e \<Rightarrow> Some (Inl e)
      | Inr d \<Rightarrow>
          if d < diagMax then
            (case mput dm i j d of
               Inl e \<Rightarrow> Some (Inl e)
             | Inr dm' \<Rightarrow> Some (Inr (Suc i, dm')))
          else Some (Inr (i, dm)))"
  using assms by (subst lowerColumn.simps) (simp split: sum.splits)

lemma lowerLeft_closed:
  assumes "length l1 = n" and "length l2 = m"
    and "shape n m dm" and "fits l1 l2" and "m \<le> n" and "iMin \<le> j0"
  shows "\<exists>dm'. lowerLeft l1 l2 n m diagMax j0 iMin dm = Some (Inr dm')
          \<and> shape n m dm'
          \<and> (\<forall>i < n. \<forall>j < m. dm' ! i ! j =
                (if i = j \<and> j0 \<le> j \<and> euclid (l1 ! j) (l2 ! j) < diagMax
                 then euclid (l1 ! j) (l2 ! j) else dm ! i ! j))"
  using assms
proof (induction l1 l2 n m diagMax j0 iMin dm rule: lowerLeft.induct)
  case (1 l1 l2 n m diagMax j iMin dm)
  let ?d = "euclid (l1 ! j) (l2 ! j)"
  show ?case
  proof (cases "j < m")
    case False
    then show ?thesis using "1.prems"(3) by (subst lowerLeft.simps) simp
  next
    case True
    have jn: "j < n" using True "1.prems"(5) by simp
    have pd: "pointDistance l1 l2 j j = Inr ?d"
      using pointDistance_closed [OF "1.prems"(4)] jn True "1.prems"(1,2) by simp
    show ?thesis
    proof (cases "?d < diagMax")
      case False
      have col: "lowerColumn l1 l2 n iMin diagMax j j dm = Some (Inr (j, dm))"
        using lowerColumn_once [OF "1.prems"(6)] pd False by simp
      obtain dm' where
        run: "lowerLeft l1 l2 n m diagMax (Suc j) j dm = Some (Inr dm')"
        and sh': "shape n m dm'"
        and cells: "\<forall>a < n. \<forall>b < m. dm' ! a ! b =
                      (if a = b \<and> Suc j \<le> b \<and> euclid (l1 ! b) (l2 ! b) < diagMax
                       then euclid (l1 ! b) (l2 ! b) else dm ! a ! b)"
        using "1.IH" [OF True col refl refl "1.prems"(1,2,3,4,5)] by auto
      have unfold: "lowerLeft l1 l2 n m diagMax j iMin dm
                      = lowerLeft l1 l2 n m diagMax (Suc j) j dm"
        using True col by (subst lowerLeft.simps) simp
      have "\<forall>a < n. \<forall>b < m. dm' ! a ! b =
              (if a = b \<and> j \<le> b \<and> euclid (l1 ! b) (l2 ! b) < diagMax
               then euclid (l1 ! b) (l2 ! b) else dm ! a ! b)"
      proof (intro allI impI)
        fix a b assume "a < n" "b < m"
        then show "dm' ! a ! b =
              (if a = b \<and> j \<le> b \<and> euclid (l1 ! b) (l2 ! b) < diagMax
               then euclid (l1 ! b) (l2 ! b) else dm ! a ! b)"
          using cells False by (cases "b = j") auto
      qed
      then show ?thesis using unfold run sh' by simp
    next
      case less: True
      let ?dm1 = "dm[j := (dm ! j)[j := ?d]]"
      have put: "mput dm j j ?d = Inr ?dm1"
        using mput_shape(1) [OF "1.prems"(3) jn True] .
      have sh1: "shape n m ?dm1"
        using mput_shape(2) [OF "1.prems"(3) jn True] .
      have col: "lowerColumn l1 l2 n iMin diagMax j j dm = Some (Inr (Suc j, ?dm1))"
        using lowerColumn_once [OF "1.prems"(6)] pd less put by simp
      obtain dm' where
        run: "lowerLeft l1 l2 n m diagMax (Suc j) (Suc j) ?dm1 = Some (Inr dm')"
        and sh': "shape n m dm'"
        and cells: "\<forall>a < n. \<forall>b < m. dm' ! a ! b =
                      (if a = b \<and> Suc j \<le> b \<and> euclid (l1 ! b) (l2 ! b) < diagMax
                       then euclid (l1 ! b) (l2 ! b) else ?dm1 ! a ! b)"
        using "1.IH" [OF True col refl refl "1.prems"(1,2) sh1 "1.prems"(4,5)] by auto
      have unfold: "lowerLeft l1 l2 n m diagMax j iMin dm
                      = lowerLeft l1 l2 n m diagMax (Suc j) (Suc j) ?dm1"
        using True col by (subst lowerLeft.simps) simp
      have "\<forall>a < n. \<forall>b < m. dm' ! a ! b =
              (if a = b \<and> j \<le> b \<and> euclid (l1 ! b) (l2 ! b) < diagMax
               then euclid (l1 ! b) (l2 ! b) else dm ! a ! b)"
      proof (intro allI impI)
        fix a b assume a: "a < n" and b: "b < m"
        have "?dm1 ! a ! b = (if a = j \<and> b = j then ?d else dm ! a ! b)"
          using mput_shape(3) [OF "1.prems"(3) jn True a b] .
        then show "dm' ! a ! b =
              (if a = b \<and> j \<le> b \<and> euclid (l1 ! b) (l2 ! b) < diagMax
               then euclid (l1 ! b) (l2 ! b) else dm ! a ! b)"
          using cells a b less by (cases "b = j") auto
      qed
      then show ?thesis using unfold run sh' by simp
    qed
  qed
qed


lemma core_bound:
  fixes n m :: nat
  assumes "1 \<le> m" and "m \<le> n"
  shows "(n mod m) * (n div m + 1) + 1 \<le> n"
proof -
  define q where "q = n div m"
  define r where "r = n mod m"
  define rq where "rq = r * q"
  define mq where "mq = m * q"
  have "0 < n div m" using assms by (simp add: div_greater_zero_iff)
  then have q: "1 \<le> q" by (simp add: q_def)
  have "r < m" using assms by (simp add: r_def)
  then have "Suc r \<le> m" by simp
  then have "Suc r * q \<le> m * q" by (rule mult_le_mono1)
  then have h: "rq + q \<le> mq" by (simp add: rq_def mq_def add.commute)
  have n: "mq + r = n" by (simp add: mq_def q_def r_def)
  have e: "r * (q + 1) = rq + r" by (simp add: rq_def)
  have "rq + r + 1 \<le> n" using h n q by linarith
  then show ?thesis by (simp only: e q_def [symmetric] r_def [symmetric])
qed

lemma core_head_column:
  fixes n m i :: nat
  assumes "1 \<le> m" and "i \<le> (n mod m) * (n div m + 1)"
  shows "i div (n div m + 1) < m"
proof -
  have "i div (n div m + 1) \<le> ((n mod m) * (n div m + 1)) div (n div m + 1)"
    using assms(2) by (rule div_le_mono)
  also have "\<dots> = n mod m" by (rule div_mult_self_is_m) simp
  also have "\<dots> < m" using assms(1) by simp
  finally show ?thesis .
qed

lemma core_tail_column:
  fixes n m i :: nat
  assumes "1 \<le> m" and "m \<le> n" and "i < n"
  shows "(i - n mod m) div (n div m) < m"
proof -
  let ?q = "n div m" and ?r = "n mod m"
  have "0 < ?q" using assms by (simp add: div_greater_zero_iff)
  then have q: "1 \<le> ?q" by simp
  have n: "n = m * ?q + ?r" by simp
  have "0 < m * ?q" using q assms(1) by simp
  then have "i - ?r < m * ?q" using assms(3) n by linarith
  then show ?thesis by (simp add: less_mult_imp_div_less mult.commute)
qed

lemma coreColumn_head:
  "i \<le> (n mod m) * (n div m + 1) \<Longrightarrow> coreColumn n m i = i div (n div m + 1)"
  by (simp add: coreColumn_def)

lemma coreColumn_tail:
  assumes "1 \<le> m" and "m \<le> n" and "(n mod m) * (n div m + 1) \<le> i"
  shows "coreColumn n m i = (i - n mod m) div (n div m)"
proof (cases "i = (n mod m) * (n div m + 1)")
  case True
  have q: "0 < n div m" using assms by (simp add: div_greater_zero_iff)
  have "(i - n mod m) = (n mod m) * (n div m)" unfolding True by simp
  then have "(i - n mod m) div (n div m) = n mod m" using q by simp
  moreover have "i div (n div m + 1) = n mod m"
    unfolding True by (rule div_mult_self_is_m) simp
  ultimately show ?thesis using True by (simp add: coreColumn_def)
next
  case False
  then show ?thesis using assms(3) by (simp add: coreColumn_def)
qed

lemma coreColumn_less:
  assumes "1 \<le> m" and "m \<le> n" and "i < n"
  shows "coreColumn n m i < m"
proof (cases "i \<le> (n mod m) * (n div m + 1)")
  case True
  then show ?thesis using core_head_column [OF assms(1) True] by (simp add: coreColumn_head)
next
  case False
  then have "(n mod m) * (n div m + 1) \<le> i" by simp
  then show ?thesis
    using core_tail_column [OF assms] coreColumn_tail [OF assms(1,2)] by simp
qed

lemma euclid_nonneg: "0 \<le> euclid p q"
  by (simp add: euclid_def sqEuclid_nonneg)


lemma fillDiagonal_closed_nm:
  assumes "length l1 = n" and "length l2 = m"
    and "shape n m dm" and "fits l1 l2"
    and "bound \<le> n" and "\<forall>i. i0 \<le> i \<and> i < bound \<longrightarrow> column i < m"
  shows "\<exists>dm'. fillDiagonal column l1 l2 bound i0 diagMax dm
            = Inr (Max (insert diagMax ((\<lambda>i. euclid (l1 ! i) (l2 ! column i)) ` {i0..<bound})), dm')
          \<and> shape n m dm'
          \<and> (\<forall>i < n. \<forall>j < m. dm' ! i ! j =
                (if i0 \<le> i \<and> i < bound \<and> j = column i then euclid (l1 ! i) (l2 ! j)
                 else dm ! i ! j))"
  using assms(3-) unfolding assms(1) [symmetric] assms(2) [symmetric]
  by (rule fillDiagonal_closed)

lemma Max_two_runs:
  fixes f :: "nat \<Rightarrow> real"
  assumes "\<And>i. 0 \<le> f i" and "c < b" and "c \<le> b" and "b \<le> n" and "c < n"
  shows "Max (insert (Max (insert 0 (f ` {0..<b}))) (f ` {c..<n})) = Max (f ` {..<n})"
proof -
  let ?A = "f ` {0..<b}" and ?B = "f ` {c..<n}"
  have finA: "finite ?A" and finB: "finite ?B" by simp_all
  have neA: "?A \<noteq> {}" using assms(2) by auto
  have neB: "?B \<noteq> {}" using assms(5) by auto
  have "f 0 \<in> ?A" using assms(2) by auto
  then have "f 0 \<le> Max ?A" using finA by (rule_tac Max_ge)
  then have pos: "0 \<le> Max ?A" using assms(1) [of 0] by linarith
  have "Max (insert 0 ?A) = max 0 (Max ?A)" using finA neA by (rule Max_insert)
  then have a: "Max (insert 0 ?A) = Max ?A" using pos by simp
  have "Max (insert (Max ?A) ?B) = max (Max ?A) (Max ?B)" using finB neB by (rule Max_insert)
  also have "\<dots> = Max (?A \<union> ?B)" using finA neA finB neB by (rule Max_Un [symmetric])
  also have "?A \<union> ?B = f ` ({0..<b} \<union> {c..<n})" by (simp add: image_Un)
  also have "{0..<b} \<union> {c..<n} = {..<n}" using assms(2,3,4) by auto
  finally show ?thesis by (simp only: a)
qed

lemma bandedMatrix_closed:
  assumes len1: "length l1 = n" and len2: "length l2 = m"
    and m1: "1 \<le> m" and mn: "m \<le> n" and fit: "fits l1 l2"
  shows "\<exists>dm. bandedMatrix dInit l1 l2 []
            = Some (Inr (Max ((\<lambda>i. euclid (l1 ! i) (l2 ! coreColumn n m i)) ` {..<n}), dm))
          \<and> shape n m dm
          \<and> (\<forall>i < n. \<forall>j < m. dm ! i ! j =
                (if i = j \<and> euclid (l1 ! j) (l2 ! j)
                       < Max ((\<lambda>i. euclid (l1 ! i) (l2 ! coreColumn n m i)) ` {..<n})
                 then euclid (l1 ! j) (l2 ! j)
                 else if j = coreColumn n m i then euclid (l1 ! i) (l2 ! j) else 0))"
proof -
  define q where "q = n div m"
  define r where "r = n mod m"
  define c where "c = r * (q + 1)"
  define core where "core = (\<lambda>i. euclid (l1 ! i) (l2 ! coreColumn n m i))"
  define zeros :: matrix where "zeros = replicate n (replicate m 0)"
  let ?f1 = "\<lambda>i. euclid (l1 ! i) (l2 ! (i div (q + 1)))"
  let ?f2 = "\<lambda>i. euclid (l1 ! i) (l2 ! ((i - r) div q))"
  have cb: "c + 1 \<le> n" using core_bound [OF m1 mn] by (simp add: c_def q_def r_def)
  have sh0: "shape n m zeros"
    by (simp add: zeros_def shape_zeros)
  have rng1: "\<forall>i. 0 \<le> i \<and> i < c + 1 \<longrightarrow> i div (q + 1) < m"
    using core_head_column [OF m1, of _ n] by (simp add: c_def q_def r_def)
  obtain dm1 where
    run1: "fillDiagonal (\<lambda>i. i div (q + 1)) l1 l2 (c + 1) 0 0 zeros
             = Inr (Max (insert 0 (?f1 ` {0..<c + 1})), dm1)"
    and sh1: "shape n m dm1"
    and cells1: "\<forall>i < n. \<forall>j < m. dm1 ! i ! j =
                   (if 0 \<le> i \<and> i < c + 1 \<and> j = i div (q + 1) then euclid (l1 ! i) (l2 ! j)
                    else zeros ! i ! j)"
    using fillDiagonal_closed_nm [OF len1 len2 sh0 fit cb rng1] by blast
  have rng2: "\<forall>i. c \<le> i \<and> i < n \<longrightarrow> (i - r) div q < m"
    using core_tail_column [OF m1 mn] by (simp add: q_def r_def)
  obtain dm2 where
    run2: "fillDiagonal (\<lambda>i. (i - r) div q) l1 l2 n c
               (Max (insert 0 (?f1 ` {0..<c + 1}))) dm1
             = Inr (Max (insert (Max (insert 0 (?f1 ` {0..<c + 1}))) (?f2 ` {c..<n})), dm2)"
    and sh2: "shape n m dm2"
    and cells2: "\<forall>i < n. \<forall>j < m. dm2 ! i ! j =
                   (if c \<le> i \<and> i < n \<and> j = (i - r) div q then euclid (l1 ! i) (l2 ! j)
                    else dm1 ! i ! j)"
    using fillDiagonal_closed_nm [OF len1 len2 sh1 fit order_refl rng2] by blast
  have head: "\<And>i. i < c + 1 \<Longrightarrow> coreColumn n m i = i div (q + 1)"
    using coreColumn_head [of _ n m] by (simp add: c_def q_def r_def)
  have tail: "\<And>i. c \<le> i \<Longrightarrow> coreColumn n m i = (i - r) div q"
    using coreColumn_tail [OF m1 mn] by (simp add: c_def q_def r_def)
  have img1: "?f1 ` {0..<c + 1} = core ` {0..<c + 1}"
    by (rule image_cong) (simp_all add: core_def head)
  have img2: "?f2 ` {c..<n} = core ` {c..<n}"
    by (rule image_cong) (simp_all add: core_def tail)
  have mx: "Max (insert (Max (insert 0 (?f1 ` {0..<c + 1}))) (?f2 ` {c..<n})) = Max (core ` {..<n})"
    unfolding img1 img2
    by (rule Max_two_runs) (use cb in \<open>simp_all add: core_def euclid_nonneg\<close>)
  let ?diagMax = "Max (core ` {..<n})"
  have up: "upperRight dInit l1 l2 n m ?diagMax 0 0 dm2 = Some (Inr dm2)"
    by (rule upperRight_skip) simp
  obtain dm4 where
    run4: "lowerLeft l1 l2 n m ?diagMax 0 0 dm2 = Some (Inr dm4)"
    and sh4: "shape n m dm4"
    and cells4: "\<forall>i < n. \<forall>j < m. dm4 ! i ! j =
                   (if i = j \<and> 0 \<le> j \<and> euclid (l1 ! j) (l2 ! j) < ?diagMax
                    then euclid (l1 ! j) (l2 ! j) else dm2 ! i ! j)"
    using lowerLeft_closed [OF len1 len2 sh2 fit mn order_refl] by blast
  have cells: "\<forall>i < n. \<forall>j < m. dm2 ! i ! j =
                 (if j = coreColumn n m i then euclid (l1 ! i) (l2 ! j) else 0)"
  proof (intro allI impI)
    fix i j assume i: "i < n" and j: "j < m"
    have z: "zeros ! i ! j = 0" using i j by (simp add: zeros_def)
    show "dm2 ! i ! j = (if j = coreColumn n m i then euclid (l1 ! i) (l2 ! j) else 0)"
    proof (cases "c \<le> i")
      case True
      show ?thesis
      proof (cases "j = coreColumn n m i")
        case True
        then show ?thesis using cells2 i j \<open>c \<le> i\<close> tail by simp
      next
        case False
        then have "j \<noteq> (i - r) div q" using tail [OF True] by simp
        then have "dm2 ! i ! j = dm1 ! i ! j" using cells2 i j by simp
        moreover have "\<not> (i < c + 1 \<and> j = i div (q + 1))"
          using False head [of i] by auto
        ultimately show ?thesis using cells1 i j z False by auto
      qed
    next
      case False
      then have lt: "i < c + 1" by simp
      have "dm2 ! i ! j = dm1 ! i ! j" using cells2 i j False by simp
      then show ?thesis using cells1 i j z lt head [OF lt] by simp
    qed
  qed
  have run: "bandedMatrix dInit l1 l2 [] = Some (Inr (?diagMax, dm4))"
  proof -
    have m0: "(m = 0) = False" using m1 by simp
    show ?thesis
      unfolding bandedMatrix_def Let_def len1 len2
      by (simp only: m0 if_False append_Nil q_def [symmetric] r_def [symmetric]
            c_def [symmetric] zeros_def [symmetric] run1 run2 mx up run4
            sum.case prod.case option.case)
  qed
  show ?thesis
    using run sh4 cells4 cells unfolding core_def by auto
qed


lemma distanceMetric_1 [simp]: "distanceMetric [x] [y] = Inr \<bar>x - y\<bar>"
  by (simp add: distanceMetric_closed euclid_def sqEuclid_def)

lemma distanceMetric_2 [simp]:
  "distanceMetric [x1, x2] [y1, y2] = Inr (sqrt ((x1 - y1)\<^sup>2 + (x2 - y2)\<^sup>2))"
  by (simp add: distanceMetric_closed euclid_def)

lemma euclid_1 [simp]: "euclid [x] [y] = \<bar>x - y\<bar>"
  by (simp add: euclid_def sqEuclid_def)

lemmas run_simps = computeDistanceMatrix_def swapIfShorter_def bandedMatrix_def
  fillDiagonal.simps upperRight.simps upperRow.simps lowerLeft.simps lowerColumn.simps
  pointDistance_def vget_def mput_def mget_def Let_def
  computeFrechetMatrix_def couplingMatrix_def frechetDistance_def sweepRows.simps sweepRow.simps
  skipUnset.simps coupleCell_def

text \<open>
  C3. Let \<open>(A, B)\<close> be the two non-empty trajectories after the swap, of lengths
  \<open>n \<ge> m \<ge> 1\<close>, no point of \<open>A\<close> having more coordinates than a point of \<open>B\<close> (as when
  all points have one dimension). \<open>computeDistanceMatrix\<close> returns, and in the matrix
  it leaves each of the \<open>n\<close> cells \<open>(i, coreColumn n m i)\<close> of the core diagonal holds
  the Euclidean distance between point \<open>i\<close> of \<open>A\<close> and point \<open>coreColumn n m i\<close> of
  \<open>B\<close>; the value returned is the maximum of these distances.
\<close>

theorem C3_core_diagonal:
  assumes "l1 \<noteq> []" and "l2 \<noteq> []"
    and "swapIfShorter l1 l2 = (A, B)" and "fits A B"
  shows "length B \<le> length A \<and> 1 \<le> length B
     \<and> (\<exists>dm. computeDistanceMatrix dInit l1 l2 []
            = ((A, B),
               Some (Inr (Max ((\<lambda>i. euclid (A ! i) (B ! coreColumn (length A) (length B) i))
                                 ` {..<length A}), dm)))
          \<and> (\<forall>i < length A.
                mget dm i (coreColumn (length A) (length B) i)
                  = Inr (euclid (A ! i) (B ! coreColumn (length A) (length B) i))))"
proof -
  have AB: "(A = l1 \<and> B = l2) \<or> (A = l2 \<and> B = l1)"
    using assms(3) by (auto simp: swapIfShorter_def split: if_splits)
  have mn: "length B \<le> length A"
    using assms(3) by (auto simp: swapIfShorter_def split: if_splits)
  have m1: "1 \<le> length B" using AB assms(1,2) by (auto simp: Suc_le_eq)
  have fit: "fits A B" using assms(4) .
  obtain dm where
    run: "bandedMatrix dInit A B []
            = Some (Inr (Max ((\<lambda>i. euclid (A ! i) (B ! coreColumn (length A) (length B) i))
                                ` {..<length A}), dm))"
    and sh: "shape (length A) (length B) dm"
    and cells: "\<forall>i < length A. \<forall>j < length B. dm ! i ! j =
                 (if i = j \<and> euclid (A ! j) (B ! j)
                       < Max ((\<lambda>i. euclid (A ! i) (B ! coreColumn (length A) (length B) i))
                                ` {..<length A})
                  then euclid (A ! j) (B ! j)
                  else if j = coreColumn (length A) (length B) i then euclid (A ! i) (B ! j)
                  else 0)"
    using bandedMatrix_closed [OF refl refl m1 mn fit] by blast
  have core: "\<forall>i < length A.
                mget dm i (coreColumn (length A) (length B) i)
                  = Inr (euclid (A ! i) (B ! coreColumn (length A) (length B) i))"
  proof (intro allI impI)
    fix i assume i: "i < length A"
    have j: "coreColumn (length A) (length B) i < length B"
      using coreColumn_less [OF m1 mn i] .
    have "dm ! i ! coreColumn (length A) (length B) i
            = euclid (A ! i) (B ! coreColumn (length A) (length B) i)"
      using cells i j by auto
    then show "mget dm i (coreColumn (length A) (length B) i)
                  = Inr (euclid (A ! i) (B ! coreColumn (length A) (length B) i))"
      using mget_shape [OF sh i j] by simp
  qed
  have "computeDistanceMatrix dInit l1 l2 []
          = ((A, B),
             Some (Inr (Max ((\<lambda>i. euclid (A ! i) (B ! coreColumn (length A) (length B) i))
                               ` {..<length A}), dm)))"
    using run assms(3) by (simp add: computeDistanceMatrix_def)
  then show ?thesis using mn m1 core by blast
qed

lemma coreColumn_2_1:
  "coreColumn (Suc (Suc 0)) (Suc 0) 0 = 0" "coreColumn (Suc (Suc 0)) (Suc 0) (Suc 0) = 0"
  by (simp_all add: coreColumn_def)

theorem C3_core_diagonal_witness:
  "swapIfShorter [[0]] [[1], [3]] = ([[1], [3]], [[0]]) \<and> fits [[1], [3]] [[0]]
     \<and> (\<exists>dm. computeDistanceMatrix (\<lambda>i. 0) [[0]] [[1], [3]] []
                 = (([[1], [3]], [[0]]), Some (Inr (3, dm)))
           \<and> mget dm 0 0 = Inr 1 \<and> mget dm 1 0 = Inr 3)"
proof -
  have fit: "fits [[1], [3 :: real]] [[0 :: real]]"
    by (simp add: fits_def)
  have sw: "swapIfShorter [[0]] [[1], [3]] = ([[1], [3]], [[0]])"
    by (simp add: swapIfShorter_def)
  obtain dm where
    run: "computeDistanceMatrix (\<lambda>i. 0) [[0]] [[1], [3]] []
            = (([[1], [3]], [[0]]),
               Some (Inr (Max ((\<lambda>i. euclid ([[1], [3]] ! i)
                                  ([[0]] ! coreColumn (length [[1], [3 :: real]])
                                             (length [[0 :: real]]) i))
                                 ` {..<length [[1], [3 :: real]]}), dm)))"
    and core: "\<forall>i < length [[1], [3 :: real]].
                 mget dm i (coreColumn (length [[1], [3 :: real]]) (length [[0 :: real]]) i)
                   = Inr (euclid ([[1], [3]] ! i)
                           ([[0]] ! coreColumn (length [[1], [3 :: real]])
                                      (length [[0 :: real]]) i))"
    using C3_core_diagonal [OF _ _ sw fit, of "\<lambda>i. 0"] by auto
  have "computeDistanceMatrix (\<lambda>i. 0) [[0]] [[1], [3]] []
          = (([[1], [3]], [[0]]), Some (Inr (3, dm)))"
    using run by (simp add: lessThan_Suc coreColumn_2_1)
  moreover have "mget dm 0 0 = Inr 1"
    using core [rule_format, of 0] by (simp add: coreColumn_2_1)
  moreover have "mget dm 1 0 = Inr 3"
    using core [rule_format, of 1] by (simp add: coreColumn_2_1)
  ultimately show ?thesis using sw fit by blast
qed


text \<open>
  C10. \<open>frechetDistance\<close> passes its two references on to \<open>computeFrechetMatrix\<close> and
  that to \<open>computeDistanceMatrix\<close>, which swaps them when the first trajectory is
  strictly shorter than the second and leaves them alone otherwise: after each of the
  three calls the caller's first variable holds the longer trajectory. The swap comes
  before every statement that can fail, so this is the state of the two variables
  whatever the outcome of the call is.
\<close>

theorem C10_swap_visible_to_caller:
  "fst (frechetDistance maxT dInit l1 l2)
      = (if length l1 < length l2 then (l2, l1) else (l1, l2))
   \<and> fst (computeFrechetMatrix maxT dInit l1 l2 frechetMatrix)
      = (if length l1 < length l2 then (l2, l1) else (l1, l2))
   \<and> fst (computeDistanceMatrix dInit l1 l2 distanceMatrix)
      = (if length l1 < length l2 then (l2, l1) else (l1, l2))"
  by (simp add: frechetDistance_def computeFrechetMatrix_def computeDistanceMatrix_def
        swapIfShorter_def split: prod.splits)

theorem C10_swap_visible_to_caller_witness:
  "fst (frechetDistance maxDouble (\<lambda>i. 0) [[0]] [[1], [3]]) = ([[1], [3]], [[0]])
   \<and> fst (frechetDistance maxDouble (\<lambda>i. 0) [[1], [3]] [[0]]) = ([[1], [3]], [[0]])
   \<and> fst (frechetDistance maxDouble (\<lambda>i. 0) [[0]] [[1]]) = ([[0]], [[1]])
   \<and> computeDistanceMatrix (\<lambda>i. 0) [[0]] [[1], [3]] []
         = (([[1], [3]], [[0]]), Some (Inr (3, [[1], [3]])))"
proof -
  have "computeDistanceMatrix (\<lambda>i. 0) [[0]] [[1], [3]] []
          = (([[1], [3]], [[0]]), Some (Inr (3, [[1], [3]])))"
    by (simp add: run_simps)
  then show ?thesis
    using C10_swap_visible_to_caller [of maxDouble "\<lambda>i. 0" "[[0]]" "[[1], [3]]"]
          C10_swap_visible_to_caller [of maxDouble "\<lambda>i. 0" "[[1], [3]]" "[[0]]"]
          C10_swap_visible_to_caller [of maxDouble "\<lambda>i. 0" "[[0]]" "[[1]]"]
    by simp
qed

text \<open>
  C4 fails on the code. For \<open>l1 = [(0), (3)]\<close> and \<open>l2 = [(1), (1)]\<close> the core diagonal
  holds 1 and 2, so \<open>diagMax = 2\<close>; the cell to the right of \<open>(0, 0)\<close> has distance
  \<open>1 < diagMax\<close> and the band expansion of the claim stores it, but the matrix returned
  has 0 there. The upper-right pass enters each row with \<open>j = i\<close> and \<open>jMin \<le> i\<close>, so
  its test \<open>j < jMin\<close> is false at once (lemma \<open>upperRight_skip\<close>); the lower-left
  pass runs the body of its \<open>do\<close> loop once per column, at the cell \<open>(j, j)\<close>
  (lemma \<open>lowerColumn_once\<close>).
\<close>

theorem C4_band_expansion_failing_input:
  "computeDistanceMatrix dInit [[0], [3]] [[1], [1]] []
     = (([[0], [3]], [[1], [1]]), Some (Inr (2, [[1, 0], [0, 2]])))
   \<and> pointDistance [[0], [3]] [[1], [1]] 0 1 = Inr 1 \<and> (1 :: real) < 2"
  by (simp add: run_simps)



section \<open>The Frechet distance\<close>

lemma euclid_sym: "length p = length q \<Longrightarrow> euclid p q = euclid q p"
  by (simp add: euclid_def sqEuclid_def power2_commute)

lemma coreColumn_square: "i < n \<Longrightarrow> coreColumn n n i = i"
  by (simp add: coreColumn_def)

lemma matrix_eqI:
  assumes "shape n m M" and "shape n m M'"
    and "\<forall>i < n. \<forall>j < m. M ! i ! j = M' ! i ! j"
  shows "M = M'"
proof (rule nth_equalityI)
  show "length M = length M'" using assms(1,2) by (simp add: shape_def)
next
  fix i assume "i < length M"
  then have i: "i < n" using assms(1) by (simp add: shape_def)
  show "M ! i = M' ! i"
  proof (rule nth_equalityI)
    show "length (M ! i) = length (M' ! i)" using assms(1,2) i by (simp add: shape_def)
  next
    fix j assume "j < length (M ! i)"
    then have "j < m" using assms(1) i by (simp add: shape_def)
    then show "M ! i ! j = M' ! i ! j" using assms(3) i by simp
  qed
qed

lemma bandedMatrix_square_sym:
  assumes lenA: "length A = n" and lenB: "length B = n"
    and dimA: "uniformDim k A" and dimB: "uniformDim k B"
  shows "bandedMatrix dInit A B [] = bandedMatrix dInit B A []"
proof (cases "n = 0")
  case True
  then show ?thesis using lenA lenB by (simp add: bandedMatrix_def)
next
  case False
  then have n1: "1 \<le> n" by simp
  let ?cAB = "\<lambda>i. euclid (A ! i) (B ! coreColumn n n i)"
  let ?cBA = "\<lambda>i. euclid (B ! i) (A ! coreColumn n n i)"
  have sym: "\<And>i j. i < n \<Longrightarrow> j < n \<Longrightarrow> euclid (A ! i) (B ! j) = euclid (B ! j) (A ! i)"
    using dimA dimB lenA lenB by (intro euclid_sym) (simp add: uniformDim_def)
  have core: "\<And>i. i < n \<Longrightarrow> ?cAB i = ?cBA i"
    using sym by (simp add: coreColumn_square)
  have img: "?cAB ` {..<n} = ?cBA ` {..<n}"
    by (rule image_cong) (simp_all add: core)
  obtain dm where
    runAB: "bandedMatrix dInit A B [] = Some (Inr (Max (?cAB ` {..<n}), dm))"
    and sh: "shape n n dm"
    and cells: "\<forall>i < n. \<forall>j < n. dm ! i ! j =
                 (if i = j \<and> euclid (A ! j) (B ! j) < Max (?cAB ` {..<n})
                  then euclid (A ! j) (B ! j)
                  else if j = coreColumn n n i then euclid (A ! i) (B ! j) else 0)"
    using bandedMatrix_closed [OF lenA lenB n1 order_refl uniformDim_fits [OF dimA dimB]]
    by blast
  obtain dm' where
    runBA: "bandedMatrix dInit B A [] = Some (Inr (Max (?cBA ` {..<n}), dm'))"
    and sh': "shape n n dm'"
    and cells': "\<forall>i < n. \<forall>j < n. dm' ! i ! j =
                 (if i = j \<and> euclid (B ! j) (A ! j) < Max (?cBA ` {..<n})
                  then euclid (B ! j) (A ! j)
                  else if j = coreColumn n n i then euclid (B ! i) (A ! j) else 0)"
    using bandedMatrix_closed [OF lenB lenA n1 order_refl uniformDim_fits [OF dimB dimA]]
    by blast
  have "\<forall>i < n. \<forall>j < n. dm ! i ! j = dm' ! i ! j"
  proof (intro allI impI)
    fix i j assume i: "i < n" and j: "j < n"
    have "dm ! i ! j = (if i = j then euclid (A ! j) (B ! j) else 0)"
      using cells i j by (simp add: coreColumn_square)
    moreover have "dm' ! i ! j = (if i = j then euclid (B ! j) (A ! j) else 0)"
      using cells' i j by (simp add: coreColumn_square)
    ultimately show "dm ! i ! j = dm' ! i ! j" using sym [OF j j] by simp
  qed
  then have "dm = dm'" using sh sh' by (intro matrix_eqI) simp_all
  then show ?thesis using runAB runBA img by simp
qed

lemma bandedMatrix_dInit:
  assumes fit: "fits l1 l2" and mn: "length l2 \<le> length l1"
  shows "bandedMatrix dInit l1 l2 [] = bandedMatrix dInit' l1 l2 []"
proof (cases "length l2 = 0")
  case True
  then show ?thesis by (simp add: bandedMatrix_def)
next
  case False
  then have m1: "1 \<le> length l2" by (cases l2) simp_all
  let ?n = "length l1" and ?m = "length l2"
  let ?diagMax = "Max ((\<lambda>i. euclid (l1 ! i) (l2 ! coreColumn ?n ?m i)) ` {..<?n})"
  obtain dm where
    run: "bandedMatrix dInit l1 l2 [] = Some (Inr (?diagMax, dm))"
    and sh: "shape ?n ?m dm"
    and cells: "\<forall>i < ?n. \<forall>j < ?m. dm ! i ! j =
                 (if i = j \<and> euclid (l1 ! j) (l2 ! j) < ?diagMax
                  then euclid (l1 ! j) (l2 ! j)
                  else if j = coreColumn ?n ?m i then euclid (l1 ! i) (l2 ! j) else 0)"
    using bandedMatrix_closed [OF refl refl m1 mn fit] by blast
  obtain dm' where
    run': "bandedMatrix dInit' l1 l2 [] = Some (Inr (?diagMax, dm'))"
    and sh': "shape ?n ?m dm'"
    and cells': "\<forall>i < ?n. \<forall>j < ?m. dm' ! i ! j =
                 (if i = j \<and> euclid (l1 ! j) (l2 ! j) < ?diagMax
                  then euclid (l1 ! j) (l2 ! j)
                  else if j = coreColumn ?n ?m i then euclid (l1 ! i) (l2 ! j) else 0)"
    using bandedMatrix_closed [OF refl refl m1 mn fit] by blast
  have "\<forall>i < ?n. \<forall>j < ?m. dm ! i ! j = dm' ! i ! j"
    using cells cells' by simp
  then have "dm = dm'" using sh sh' by (intro matrix_eqI) simp_all
  then show ?thesis using run run' by simp
qed

text \<open>
  With checked subscripts \<open>frechetDistance\<close> has the same outcome on \<open>(A, B)\<close> and on
  \<open>(B, A)\<close>: when the lengths differ both calls work on the pair with the longer
  trajectory first; when they are equal, the core diagonal is the main diagonal and the
  distance of two points does not depend on their order.
\<close>

lemma frechetDistance_swap_outcome:
  assumes "uniformDim k A" and "uniformDim k B"
  shows "snd (frechetDistance maxT dInit A B) = snd (frechetDistance maxT dInit' B A)"
proof -
  consider "length A < length B" | "length B < length A" | "length A = length B"
    by linarith
  then show ?thesis
  proof cases
    case 1
    have "bandedMatrix dInit B A [] = bandedMatrix dInit' B A []"
      using uniformDim_fits [OF assms(2,1)] 1 by (intro bandedMatrix_dInit) simp_all
    then have "computeDistanceMatrix dInit A B [] = computeDistanceMatrix dInit' B A []"
      using 1 by (simp add: computeDistanceMatrix_def swapIfShorter_def)
    then show ?thesis by (simp add: frechetDistance_def computeFrechetMatrix_def)
  next
    case 2
    have "bandedMatrix dInit A B [] = bandedMatrix dInit' A B []"
      using uniformDim_fits [OF assms] 2 by (intro bandedMatrix_dInit) simp_all
    then have "computeDistanceMatrix dInit A B [] = computeDistanceMatrix dInit' B A []"
      using 2 by (simp add: computeDistanceMatrix_def swapIfShorter_def)
    then show ?thesis by (simp add: frechetDistance_def computeFrechetMatrix_def)
  next
    case 3
    have "bandedMatrix dInit A B [] = bandedMatrix dInit B A []"
      using bandedMatrix_square_sym [OF refl 3 [symmetric] assms] .
    also have "\<dots> = bandedMatrix dInit' B A []"
      using uniformDim_fits [OF assms(2,1)] 3 by (intro bandedMatrix_dInit) simp_all
    finally have band: "bandedMatrix dInit A B [] = bandedMatrix dInit' B A []" .
    have ne: "(A = []) = (B = [])" using 3 by auto
    show ?thesis
      using 3 band ne
      by (simp add: frechetDistance_def computeFrechetMatrix_def computeDistanceMatrix_def
            swapIfShorter_def disj_commute split: option.splits sum.splits prod.splits)
  qed
qed


subsection \<open>The sweep reads past the end of a row\<close>

text \<open>
  The functions of the sweep fail with \<open>OutOfRange\<close> only. In the last row of the
  banded matrix the one cell that can be set is the last one, \<open>(n - 1, m - 1)\<close>. When it
  is non-zero, the sweep visits it, increments \<open>j\<close> to \<open>m\<close> and evaluates
  \<open>distanceMatrix[n - 1][m] != 0 && j < m\<close>, which reads the row at \<open>m\<close> before the
  bound is tested; when it is zero, the loop that skips unset cells finds no set cell
  in the row and reads on past its end. So for all trajectories of one dimension, the
  longer having at least two points, \<open>frechetDistance\<close> reads outside a row of
  \<open>distanceMatrix\<close>, and with checked subscripts fails there (lemma
  \<open>frechetDistance_fails\<close>); it then returns a scalar only when both trajectories have
  one point.
\<close>

lemma vget_error: "vget v k = Inl e \<Longrightarrow> e = OutOfRange"
  by (simp add: vget_def split: if_splits)

lemma mget_error: "mget M i j = Inl e \<Longrightarrow> e = OutOfRange"
  by (auto simp: mget_def split: sum.splits dest: vget_error)

lemma mput_error: "mput M i j v = Inl e \<Longrightarrow> e = OutOfRange"
  by (simp add: mput_def split: if_splits)

lemma coupleCell_error:
  assumes "coupleCell maxT dm fm i j = Inl e"
  shows "e = OutOfRange"
proof -
  have "\<exists>M a b. mget M a b = Inl e"
    using assms unfolding coupleCell_def
    by (auto split: sum.splits if_splits)
  then show ?thesis using mget_error by blast
qed

lemma skipUnset_error: "skipUnset dm i j = Inl e \<Longrightarrow> e = OutOfRange"
proof (induction dm i j rule: skipUnset.induct)
  case (1 dm i j)
  show ?case
  proof (cases "mget dm i j")
    case (Inl e')
    then have "skipUnset dm i j = Inl e'" by (subst skipUnset.simps) simp
    then show ?thesis using "1.prems" Inl mget_error by simp
  next
    case (Inr v)
    show ?thesis
    proof (cases "v = 0")
      case True
      then have "skipUnset dm i j = skipUnset dm i (Suc j)"
        using Inr by (subst skipUnset.simps) simp
      then show ?thesis using "1.IH" [OF Inr True] "1.prems" by simp
    next
      case False
      then have "skipUnset dm i j = Inr j" using Inr by (subst skipUnset.simps) simp
      then show ?thesis using "1.prems" by simp
    qed
  qed
qed

lemma mget_Inr:
  assumes "shape n m dm" and "i < n" and "mget dm i j = Inr v"
  shows "j < m \<and> v = dm ! i ! j"
  using assms by (auto simp: mget_def vget_def shape_def split: if_splits)

lemma mget_past_row:
  assumes "shape n m dm" and "i < n"
  shows "mget dm i m = Inl OutOfRange"
  using assms by (simp add: mget_def vget_def shape_def)

lemma skipUnset_result:
  "shape n m dm \<Longrightarrow> i < n \<Longrightarrow> skipUnset dm i j = Inr j'
     \<Longrightarrow> j \<le> j' \<and> j' < m \<and> dm ! i ! j' \<noteq> 0"
proof (induction dm i j rule: skipUnset.induct)
  case (1 dm i j)
  show ?case
  proof (cases "mget dm i j")
    case (Inl e')
    then have "skipUnset dm i j = Inl e'" by (subst skipUnset.simps) simp
    then show ?thesis using "1.prems" by simp
  next
    case (Inr v)
    have jm: "j < m \<and> v = dm ! i ! j"
      using mget_Inr [OF "1.prems"(1,2) Inr] .
    show ?thesis
    proof (cases "v = 0")
      case True
      then have "skipUnset dm i j = skipUnset dm i (Suc j)"
        using Inr by (subst skipUnset.simps) simp
      then have "skipUnset dm i (Suc j) = Inr j'" using "1.prems"(3) by simp
      then have "Suc j \<le> j' \<and> j' < m \<and> dm ! i ! j' \<noteq> 0"
        using "1.IH" [OF Inr True "1.prems"(1,2)] by simp
      then show ?thesis by simp
    next
      case False
      then have "skipUnset dm i j = Inr j" using Inr by (subst skipUnset.simps) simp
      then have "j' = j" using "1.prems"(3) by simp
      then show ?thesis using jm False by simp
    qed
  qed
qed

lemma sweepRow_error: "sweepRow maxT dm m i j fm = Inl e \<Longrightarrow> e = OutOfRange"
proof (induction maxT dm m i j fm rule: sweepRow.induct)
  case (1 maxT dm m i j fm)
  show ?case
  proof (cases "mget dm i j")
    case (Inl e')
    then have "sweepRow maxT dm m i j fm = Inl e'" by (subst sweepRow.simps) simp
    then show ?thesis using "1.prems" Inl mget_error by simp
  next
    case (Inr v)
    show ?thesis
    proof (cases "v \<noteq> 0 \<and> j < m")
      case False
      then have "sweepRow maxT dm m i j fm = Inr fm"
        using Inr by (subst sweepRow.simps) auto
      then show ?thesis using "1.prems" by simp
    next
      case True
      show ?thesis
      proof (cases "coupleCell maxT dm fm i j")
        case (Inl e')
        then have "sweepRow maxT dm m i j fm = Inl e'"
          using Inr True by (subst sweepRow.simps) simp
        then show ?thesis using "1.prems" Inl coupleCell_error by simp
      next
        case c: (Inr c)
        show ?thesis
        proof (cases "mput fm i j c")
          case (Inl e')
          then have "sweepRow maxT dm m i j fm = Inl e'"
            using Inr True c by (subst sweepRow.simps) simp
          then show ?thesis using "1.prems" Inl mput_error by simp
        next
          case fm': (Inr fm')
          then have "sweepRow maxT dm m i j fm = sweepRow maxT dm m i (Suc j) fm'"
            using Inr True c by (subst sweepRow.simps) simp
          then show ?thesis using "1.IH" [OF Inr True c fm'] "1.prems" by simp
        qed
      qed
    qed
  qed
qed

lemma sweepRow_last_column:
  assumes "shape n m dm" and "i < n" and "j < m" and "Suc j = m" and "dm ! i ! j \<noteq> 0"
  shows "sweepRow maxT dm m i j fm = Inl OutOfRange"
proof -
  have get: "mget dm i j = Inr (dm ! i ! j)" using mget_shape [OF assms(1,2,3)] .
  have past: "mget dm i (Suc j) = Inl OutOfRange"
    using mget_past_row [OF assms(1,2)] assms(4) by simp
  show ?thesis
  proof (cases "coupleCell maxT dm fm i j")
    case (Inl e')
    then have "sweepRow maxT dm m i j fm = Inl e'"
      using get assms(3,5) by (subst sweepRow.simps) simp
    then show ?thesis using Inl coupleCell_error by simp
  next
    case c: (Inr c)
    show ?thesis
    proof (cases "mput fm i j c")
      case (Inl e')
      then have "sweepRow maxT dm m i j fm = Inl e'"
        using get assms(3,5) c by (subst sweepRow.simps) simp
      then show ?thesis using Inl mput_error by simp
    next
      case fm': (Inr fm')
      then have "sweepRow maxT dm m i j fm = sweepRow maxT dm m i (Suc j) fm'"
        using get assms(3,5) c by (subst sweepRow.simps) simp
      also have "\<dots> = Inl OutOfRange"
        using past by (subst sweepRow.simps) simp
      finally show ?thesis .
    qed
  qed
qed

lemma sweepRows_fails:
  "shape n m dm \<Longrightarrow> \<forall>j. Suc j < m \<longrightarrow> dm ! (n - 1) ! j = 0 \<Longrightarrow> i < n
     \<Longrightarrow> sweepRows maxT dm n m i jMin fm = Inl OutOfRange"
proof (induction maxT dm n m i jMin fm rule: sweepRows.induct)
  case (1 maxT dm n m i jMin fm)
  have i: "i < n" using "1.prems"(3) .
  show ?case
  proof (cases "skipUnset dm i jMin")
    case (Inl e')
    then have "sweepRows maxT dm n m i jMin fm = Inl e'"
      using i by (subst sweepRows.simps) simp
    then show ?thesis using Inl skipUnset_error by simp
  next
    case j: (Inr j)
    have jres: "j < m \<and> dm ! i ! j \<noteq> 0"
      using skipUnset_result [OF "1.prems"(1) i j] by simp
    show ?thesis
    proof (cases "sweepRow maxT dm m i j fm")
      case (Inl e')
      then have "sweepRows maxT dm n m i jMin fm = Inl e'"
        using i j by (subst sweepRows.simps) simp
      then show ?thesis using Inl sweepRow_error by simp
    next
      case fm': (Inr fm')
      have unfold: "sweepRows maxT dm n m i jMin fm = sweepRows maxT dm n m (Suc i) j fm'"
        using i j fm' by (subst sweepRows.simps) simp
      show ?thesis
      proof (cases "Suc i < n")
        case True
        then show ?thesis
          using "1.IH" [OF i j fm' "1.prems"(1,2)] unfold by simp
      next
        case False
        then have last: "i = n - 1" using i by simp
        have "\<not> Suc j < m" using jres "1.prems"(2) last by auto
        then have "Suc j = m" using jres by simp
        then have "sweepRow maxT dm m i j fm = Inl OutOfRange"
          using sweepRow_last_column [OF "1.prems"(1) i _ _ _] jres by simp
        then show ?thesis using fm' by simp
      qed
    qed
  qed
qed


lemma coreColumn_last:
  fixes n m :: nat
  assumes "1 \<le> m" and "m \<le> n"
  shows "coreColumn n m (n - 1) = m - 1"
proof -
  define q where "q = n div m"
  define r where "r = n mod m"
  have "0 < n div m" using assms by (simp add: div_greater_zero_iff)
  then have q: "0 < q" by (simp add: q_def)
  have n: "n = q * m + r" by (simp add: q_def r_def)
  have "r * (q + 1) \<le> n - 1"
    using core_bound [OF assms] by (simp add: q_def r_def)
  then have "coreColumn n m (n - 1) = (n - 1 - r) div q"
    using coreColumn_tail [OF assms, of "n - 1"] by (simp add: q_def r_def)
  also have "n - 1 - r = (q - 1) + (m - 1) * q"
  proof -
    have "q * m = q + (m - 1) * q" using assms(1) by (cases m) simp_all
    then show ?thesis using n q by simp
  qed
  also have "((q - 1) + (m - 1) * q) div q = m - 1"
  proof -
    define a where "a = q - 1"
    have "a < q" using q by (simp add: a_def)
    then have "(a + (m - 1) * q) div q = m - 1" by simp
    then show ?thesis by (simp only: a_def)
  qed
  finally show ?thesis .
qed

lemma couplingMatrix_fails:
  assumes sh: "shape n m dm" and n2: "2 \<le> n" and m1: "1 \<le> m"
    and last: "\<forall>j. Suc j < m \<longrightarrow> dm ! (n - 1) ! j = 0"
  shows "couplingMatrix maxT n m dm [] = Inl OutOfRange"
proof -
  have n0: "0 < n" and m0: "0 < m" using n2 m1 by simp_all
  have get: "mget dm 0 0 = Inr (dm ! 0 ! 0)" using mget_shape [OF sh n0 m0] .
  let ?fm0 = "replicate n (replicate m (0 :: real))"
  let ?fm1 = "?fm0[0 := (?fm0 ! 0)[0 := dm ! 0 ! 0]]"
  have put: "mput ?fm0 0 0 (dm ! 0 ! 0) = Inr ?fm1"
    using mput_shape(1) [OF shape_zeros n0 m0] .
  have "sweepRows maxT dm n m 1 0 ?fm1 = Inl OutOfRange"
    by (rule sweepRows_fails [OF sh last]) (use n2 in simp)
  then show ?thesis
    unfolding couplingMatrix_def Let_def
    by (simp only: append_Nil get put sum.case)
qed

lemma frechetDistance_ordered_fails:
  assumes lenA: "length A = n" and lenB: "length B = m"
    and m1: "1 \<le> m" and mn: "m \<le> n" and n2: "2 \<le> n" and fit: "fits A B"
  shows "snd (frechetDistance maxT dInit A B) = Some (Inl OutOfRange)"
proof -
  let ?diagMax = "Max ((\<lambda>i. euclid (A ! i) (B ! coreColumn n m i)) ` {..<n})"
  obtain dm where
    run: "bandedMatrix dInit A B [] = Some (Inr (?diagMax, dm))"
    and sh: "shape n m dm"
    and cells: "\<forall>i < n. \<forall>j < m. dm ! i ! j =
                 (if i = j \<and> euclid (A ! j) (B ! j) < ?diagMax
                  then euclid (A ! j) (B ! j)
                  else if j = coreColumn n m i then euclid (A ! i) (B ! j) else 0)"
    using bandedMatrix_closed [OF lenA lenB m1 mn fit] by blast
  have last: "\<forall>j. Suc j < m \<longrightarrow> dm ! (n - 1) ! j = 0"
  proof (intro allI impI)
    fix j assume j: "Suc j < m"
    have "n - 1 < n" using n2 by simp
    moreover have "j < m" using j by simp
    moreover have "n - 1 \<noteq> j" using j mn by simp
    moreover have "j \<noteq> coreColumn n m (n - 1)"
      using coreColumn_last [OF m1 mn] j by simp
    ultimately show "dm ! (n - 1) ! j = 0" using cells by simp
  qed
  have cm: "couplingMatrix maxT n m dm [] = Inl OutOfRange"
    using couplingMatrix_fails [OF sh n2 m1 last] .
  have sw: "swapIfShorter A B = (A, B)"
    using mn lenA lenB by (simp add: swapIfShorter_def)
  show ?thesis
    using run cm sw lenA lenB
    by (simp add: frechetDistance_def computeFrechetMatrix_def computeDistanceMatrix_def)
qed

lemma frechetDistance_fails:
  assumes "uniformDim k l1" and "uniformDim k l2" and "l1 \<noteq> []" and "l2 \<noteq> []"
    and "2 \<le> length l1 \<or> 2 \<le> length l2"
  shows "snd (frechetDistance maxT dInit l1 l2) = Some (Inl OutOfRange)"
proof (cases "length l1 < length l2")
  case True
  have m1: "1 \<le> length l1" using assms(3) by (simp add: Suc_le_eq)
  have "snd (frechetDistance maxT dInit l2 l1) = Some (Inl OutOfRange)"
    by (rule frechetDistance_ordered_fails
          [OF refl refl m1 _ _ uniformDim_fits [OF assms(2,1)]])
       (use True assms(5) in auto)
  moreover have "frechetDistance maxT dInit l1 l2 = frechetDistance maxT dInit l2 l1"
    using True
    by (simp add: frechetDistance_def computeFrechetMatrix_def computeDistanceMatrix_def
          swapIfShorter_def)
  ultimately show ?thesis by simp
next
  case False
  have m1: "1 \<le> length l2" using assms(4) by (simp add: Suc_le_eq)
  show ?thesis
    by (rule frechetDistance_ordered_fails
          [OF refl refl m1 _ _ uniformDim_fits [OF assms(1,2)]])
       (use False assms(5) in auto)
qed

text \<open>
  C9 fails on the code for the Frechet distance. For \<open>A = [(0,0), (1,0), (2,0)]\<close>
  compared with itself every computed distance is 0, the value that also marks an unset
  cell: the distance matrix returned is all zeros, and in row 1 the loop
  \<open>while (distanceMatrix[i][j] == 0) j++\<close> runs through the three cells of the row and
  reads \<open>distanceMatrix[1][3]\<close>. The Hausdorff distance of \<open>A\<close> and itself is 0, as the
  claim says.
\<close>

theorem C9_identical_trajectories_failing_input:
  "snd (frechetDistance maxT dInit [[0, 0], [1, 0], [2, 0]] [[0, 0], [1, 0], [2, 0]])
     = Some (Inl OutOfRange)
   \<and> snd (computeDistanceMatrix dInit [[0, 0], [1, 0], [2, 0]] [[0, 0], [1, 0], [2, 0]] [])
     = Some (Inr (0, [[0, 0, 0], [0, 0, 0], [0, 0, 0]]))
   \<and> skipUnset [[0, 0, 0], [0, 0, 0], [0, 0, 0]] 1 0 = Inl OutOfRange
   \<and> hausdorffDistance [0, 1, 2] [0, 1, 2] [[0, 0], [1, 0], [2, 0]] [[0, 0], [1, 0], [2, 0]]
     = Inr 0"
  by (simp add: run_simps hausdorffDistance_def sumSquares_sqEuclid below_def)


subsection \<open>The recurrence of the coupling matrix\<close>

lemma coupleCell_in_range:
  assumes dm: "shape n m dm" and fm: "shape n m fm" and i: "i < n" and j: "j < m"
  shows "coupleCell maxT dm fm i j =
           Inr (max
             (let minimum1 = (if 0 < i \<and> 0 < j \<and> dm ! (i - 1) ! (j - 1) \<noteq> 0
                              then fm ! (i - 1) ! (j - 1) else maxT - 1);
                  minimum2 = (if 0 < i \<and> dm ! (i - 1) ! j \<noteq> 0
                              then min minimum1 (fm ! (i - 1) ! j) else minimum1)
              in if 0 < j \<and> dm ! i ! (j - 1) \<noteq> 0
                 then min minimum2 (fm ! i ! (j - 1)) else minimum2)
             (dm ! i ! j))"
proof -
  note gets = mget_shape [OF dm] mget_shape [OF fm]
  have lt: "i - Suc 0 < n" "j - Suc 0 < m" "0 < m" using i j by simp_all
  show ?thesis
    using i j lt
    by (cases "0 < i"; cases "0 < j"; cases "dm ! (i - 1) ! (j - 1) = 0";
        cases "dm ! (i - 1) ! j = 0"; cases "dm ! i ! (j - 1) = 0";
        simp add: coupleCell_def gets Let_def)
qed

lemma minimum_cases:
  fixes x y z S :: real
  assumes "a \<Longrightarrow> x \<le> S" and "b \<Longrightarrow> y \<le> S" and "c \<Longrightarrow> z \<le> S"
  shows "(let minimum1 = (if a then x else S);
                  minimum2 = (if b then min minimum1 y else minimum1)
              in if c then min minimum2 z else minimum2)
           = (if (if a then [x] else []) @ (if b then [y] else []) @ (if c then [z] else []) = []
              then S
              else Min (set ((if a then [x] else []) @ (if b then [y] else [])
                              @ (if c then [z] else []))))"
proof (cases a)
  case True
  note a = this
  show ?thesis
  proof (cases b)
    case True
    note b = this
    show ?thesis
    proof (cases c)
      case True
      then show ?thesis using a b by (simp add: min.assoc)
    next
      case False
      then show ?thesis using a b by simp
    qed
  next
    case False
    note b = this
    show ?thesis
    proof (cases c)
      case True
      then show ?thesis using a b by simp
    next
      case False
      then show ?thesis using a b by simp
    qed
  qed
next
  case False
  note a = this
  show ?thesis
  proof (cases b)
    case True
    note b = this
    have y: "min S y = y" using assms(2) b by simp
    show ?thesis
    proof (cases c)
      case True
      then show ?thesis using a b y by simp
    next
      case False
      then show ?thesis using a b y by simp
    qed
  next
    case False
    note b = this
    show ?thesis
    proof (cases c)
      case True
      have z: "min S z = z" using assms(3) True by simp
      show ?thesis using a b True z by simp
    next
      case False
      then show ?thesis using a b by simp
    qed
  qed
qed

lemma coupleCell_rule:
  assumes dm: "shape n m dm" and fm: "shape n m fm" and i: "i < n" and j: "j < m"
    and bound: "\<forall>c \<in> set (predCouplings dm fm i j). c \<le> maxT - 1"
  shows "coupleCell maxT dm fm i j = Inr (couplingRule maxT dm fm i j)"
proof -
  define a where "a = (0 < i \<and> 0 < j \<and> dm ! (i - 1) ! (j - 1) \<noteq> 0)"
  define b where "b = (0 < i \<and> dm ! (i - 1) ! j \<noteq> 0)"
  define c where "c = (0 < j \<and> dm ! i ! (j - 1) \<noteq> 0)"
  define x where "x = fm ! (i - 1) ! (j - 1)"
  define y where "y = fm ! (i - 1) ! j"
  define z where "z = fm ! i ! (j - 1)"
  define S where "S = maxT - 1"
  have preds: "predCouplings dm fm i j
                 = (if a then [x] else []) @ (if b then [y] else []) @ (if c then [z] else [])"
    by (simp add: predCouplings_def a_def b_def c_def x_def y_def z_def)
  have code: "coupleCell maxT dm fm i j =
                Inr (max (let minimum1 = (if a then x else S);
                              minimum2 = (if b then min minimum1 y else minimum1)
                          in if c then min minimum2 z else minimum2)
                       (dm ! i ! j))"
    unfolding a_def b_def c_def x_def y_def z_def S_def
    by (rule coupleCell_in_range [OF dm fm i j])
  have bx: "a \<Longrightarrow> x \<le> S" "b \<Longrightarrow> y \<le> S" "c \<Longrightarrow> z \<le> S"
    using bound by (simp_all add: preds S_def)
  have eq: "(let minimum1 = (if a then x else S);
                  minimum2 = (if b then min minimum1 y else minimum1)
              in if c then min minimum2 z else minimum2)
           = (if (if a then [x] else []) @ (if b then [y] else []) @ (if c then [z] else []) = []
              then S
              else Min (set ((if a then [x] else []) @ (if b then [y] else [])
                              @ (if c then [z] else []))))"
    using bx by (rule minimum_cases)
  define M where "M = (if predCouplings dm fm i j = [] then S
                        else Min (set (predCouplings dm fm i j)))"
  have letM: "(let minimum1 = (if a then x else S);
             minimum2 = (if b then min minimum1 y else minimum1)
         in if c then min minimum2 z else minimum2) = M"
    unfolding M_def preds by (rule eq)
  have "coupleCell maxT dm fm i j = Inr (max M (dm ! i ! j))"
    by (simp only: code letM)
  also have "max M (dm ! i ! j) = max (dm ! i ! j) M" by (rule max.commute)
  also have "max (dm ! i ! j) M = couplingRule maxT dm fm i j"
    unfolding couplingRule_def M_def S_def ..
  finally show ?thesis .
qed


lemma sweepRow_step:
  assumes dm: "shape n m dm" and fm: "shape n m fm" and i: "i < n" and j: "j < m"
    and bound: "\<forall>c \<in> set (predCouplings dm fm i j). c \<le> maxT - 1"
    and set: "dm ! i ! j \<noteq> 0"
  shows "sweepRow maxT dm m i j fm
           = sweepRow maxT dm m i (Suc j) (fm[i := (fm ! i)[j := couplingRule maxT dm fm i j]])"
proof -
  have get: "mget dm i j = Inr (dm ! i ! j)" using mget_shape [OF dm i j] .
  have cell: "coupleCell maxT dm fm i j = Inr (couplingRule maxT dm fm i j)"
    using coupleCell_rule [OF dm fm i j bound] .
  have put: "mput fm i j (couplingRule maxT dm fm i j)
               = Inr (fm[i := (fm ! i)[j := couplingRule maxT dm fm i j]])"
    using mput_shape(1) [OF fm i j] .
  show ?thesis
    using get cell put set j by (subst sweepRow.simps) simp
qed

lemma couplingMatrix_base:
  assumes dm: "shape n m dm" and n: "0 < n" and m: "0 < m"
  shows "couplingMatrix maxT n m dm []
           = sweepRows maxT dm n m 1 0
               ((replicate n (replicate m 0))[0 := (replicate m 0)[0 := dm ! 0 ! 0]])"
proof -
  have get: "mget dm 0 0 = Inr (dm ! 0 ! 0)" using mget_shape [OF dm n m] .
  let ?fm0 = "replicate n (replicate m (0 :: real))"
  have "mput ?fm0 0 0 (dm ! 0 ! 0) = Inr (?fm0[0 := (?fm0 ! 0)[0 := dm ! 0 ! 0]])"
    using mput_shape(1) [OF shape_zeros n m] .
  moreover have "?fm0 ! 0 = replicate m 0" using n by simp
  ultimately have put: "mput ?fm0 0 0 (dm ! 0 ! 0)
                          = Inr (?fm0[0 := (replicate m 0)[0 := dm ! 0 ! 0]])"
    by simp
  show ?thesis
    unfolding couplingMatrix_def Let_def
    by (simp only: append_Nil get put sum.case)
qed

lemma maxDouble_large: "2 < maxDouble"
  by (simp add: maxDouble_def)

lemma maxDouble_min: "min (maxDouble - 1) 1 = 1" "min (maxDouble - 1) 2 = 2"
  by (simp_all add: maxDouble_def)

lemma replicate_3: "replicate 3 x = [x, x, x]"
  by (simp add: numeral_3_eq_3)

lemma replicate_7: "replicate 7 x = [x, x, x, x, x, x, x]"
  by (simp add: numeral_eq_Suc)

text \<open>
  The sweep of a row visits one run of set cells: it starts at the first set cell at or
  after the cursor and stops at the first unset cell. For the trajectories below, of 7
  and 3 points, row 2 of the distance matrix has the set cells \<open>(2, 0)\<close> and \<open>(2, 2)\<close>
  and the unset cell \<open>(2, 1)\<close> between them: the sweep of row 2 stores the coupling of
  \<open>(2, 0)\<close> and stops, and row 3 is entered with the cursor still at column 0, so the set
  cell \<open>(2, 2)\<close> never gets a coupling.
\<close>

lemma sweep_leaves_set_cell:
  "snd (computeDistanceMatrix (\<lambda>i. 0) [[1], [2], [19], [11], [12], [21], [100]]
          [[0], [10], [20]] [])
     = Some (Inr (80, [[1, 0, 0], [2, 8, 0], [19, 0, 1], [0, 1, 0], [0, 2, 0], [0, 0, 1],
                       [0, 0, 80]]))
   \<and> skipUnset [[1, 0, 0], [2, 8, 0], [19, 0, 1], [0, 1, 0], [0, 2, 0], [0, 0, 1], [0, 0, 80]]
        1 0 = Inr 0
   \<and> sweepRow maxDouble
        [[1, 0, 0], [2, 8, 0], [19, 0, 1], [0, 1, 0], [0, 2, 0], [0, 0, 1], [0, 0, 80]] 3 1 0
        ((replicate 7 (replicate 3 0))[0 := [1, 0, 0]])
     = Inr ((replicate 7 (replicate 3 0))[0 := [1, 0, 0], 1 := [2, 8, 0]])
   \<and> skipUnset [[1, 0, 0], [2, 8, 0], [19, 0, 1], [0, 1, 0], [0, 2, 0], [0, 0, 1], [0, 0, 80]]
        2 0 = Inr 0
   \<and> sweepRow maxDouble
        [[1, 0, 0], [2, 8, 0], [19, 0, 1], [0, 1, 0], [0, 2, 0], [0, 0, 1], [0, 0, 80]] 3 2 0
        ((replicate 7 (replicate 3 0))[0 := [1, 0, 0], 1 := [2, 8, 0]])
     = Inr ((replicate 7 (replicate 3 0))[0 := [1, 0, 0], 1 := [2, 8, 0], 2 := [19, 0, 0]])
   \<and> skipUnset [[1, 0, 0], [2, 8, 0], [19, 0, 1], [0, 1, 0], [0, 2, 0], [0, 0, 1], [0, 0, 80]]
        3 0 = Inr 1"
  by (simp add: run_simps maxDouble_min replicate_3 replicate_7)


subsection \<open>The sweep with unchecked subscripts\<close>

text \<open>
  With unchecked subscripts the read of \<open>distanceMatrix[i][m]\<close> in the test of line 143
  yields a value that the test discards, \<open>j < m\<close> being false: the sweep of a row does
  not depend on the memory behind the rows (lemma \<open>sweepRow_unchecked_memory\<close>), and
  it does not fail (lemma \<open>sweepRow_unchecked_shape\<close>). The loop that skips unset cells
  stops inside the row when the row has a set cell at or after the cursor; otherwise it
  leaves the row and stops at the first non-zero value that the memory holds, if there is
  one, and from then on no row is swept. Either way the matrix computed does not depend
  on the memory (lemma \<open>sweepRows_unchecked_agree\<close>). When no point of the longer
  trajectory after its first coincides with its companion on the core diagonal, every
  row has a set cell, the first of the row being the one of the core diagonal, and the
  columns of these cells do not decrease from row to row: the cursor never leaves a row,
  the sweep returns, and the last cell it writes is the terminal cell
  (lemma \<open>frechetDistance_unchecked_returns\<close>).
\<close>

lemma mread_shape:
  "shape n m dm \<Longrightarrow> i < n \<Longrightarrow> mread mem dm i j = Inr (if j < m then dm ! i ! j else mem i j)"
  by (simp add: mread_def vget_def shape_def)

lemma skipUnset_unchecked_found:
  assumes sh: "shape n m dm" and i: "i < n" and c: "c < m" and nz: "dm ! i ! c \<noteq> 0"
  shows "j \<le> c \<Longrightarrow> \<forall>k. j \<le> k \<and> k < c \<longrightarrow> dm ! i ! k = 0
           \<Longrightarrow> skipUnset_unchecked mem dm i j = Some (Inr c)"
proof (induction "c - j" arbitrary: j)
  case 0
  then have "j = c" by simp
  then show ?case
    using mread_shape [OF sh i, of mem c] c nz by (subst skipUnset_unchecked.simps) simp
next
  case (Suc d)
  then have jc: "j < c" by simp
  have z: "dm ! i ! j = 0" using Suc.prems jc by simp
  have "skipUnset_unchecked mem dm i j = skipUnset_unchecked mem dm i (Suc j)"
    using mread_shape [OF sh i, of mem j] jc c z by (subst skipUnset_unchecked.simps) simp
  moreover have "skipUnset_unchecked mem dm i (Suc j) = Some (Inr c)"
    by (rule Suc.hyps(1)) (use Suc.hyps(2) Suc.prems jc in auto)
  ultimately show ?case by simp
qed

lemma skipUnset_unchecked_result:
  assumes "skipUnset_unchecked mem dm i j = Some r"
  shows "shape n m dm \<longrightarrow> i < n \<longrightarrow>
           (\<exists>j1. r = Inr j1 \<and> j \<le> j1
              \<and> (\<forall>k. j \<le> k \<and> k < j1 \<and> k < m \<longrightarrow> dm ! i ! k = 0)
              \<and> (j1 < m \<longrightarrow> dm ! i ! j1 \<noteq> 0))"
proof (rule skipUnset_unchecked.raw_induct
    [where P = "\<lambda>mem dm i j r. shape n m dm \<longrightarrow> i < n \<longrightarrow>
           (\<exists>j1. r = Inr j1 \<and> j \<le> j1
              \<and> (\<forall>k. j \<le> k \<and> k < j1 \<and> k < m \<longrightarrow> dm ! i ! k = 0)
              \<and> (j1 < m \<longrightarrow> dm ! i ! j1 \<noteq> 0))", OF _ assms])
  fix f :: "(nat \<Rightarrow> nat \<Rightarrow> real) \<Rightarrow> matrix \<Rightarrow> nat \<Rightarrow> nat \<Rightarrow> (error + nat) option"
    and mem dm i j r
  assume IH: "\<And>mem dm i j r. f mem dm i j = Some r \<Longrightarrow> shape n m dm \<longrightarrow> i < n \<longrightarrow>
           (\<exists>j1. r = Inr j1 \<and> j \<le> j1
              \<and> (\<forall>k. j \<le> k \<and> k < j1 \<and> k < m \<longrightarrow> dm ! i ! k = 0)
              \<and> (j1 < m \<longrightarrow> dm ! i ! j1 \<noteq> 0))"
    and eq: "(case mread mem dm i j of
                Inl e \<Rightarrow> Some (Inl e)
              | Inr v \<Rightarrow> if v = 0 then f mem dm i (Suc j) else Some (Inr j)) = Some r"
  show "shape n m dm \<longrightarrow> i < n \<longrightarrow>
           (\<exists>j1. r = Inr j1 \<and> j \<le> j1
              \<and> (\<forall>k. j \<le> k \<and> k < j1 \<and> k < m \<longrightarrow> dm ! i ! k = 0)
              \<and> (j1 < m \<longrightarrow> dm ! i ! j1 \<noteq> 0))"
  proof (intro impI)
    assume sh: "shape n m dm" and i: "i < n"
    define v where "v = (if j < m then dm ! i ! j else mem i j)"
    have rd: "mread mem dm i j = Inr v"
      using mread_shape [OF sh i] by (simp add: v_def)
    show "\<exists>j1. r = Inr j1 \<and> j \<le> j1
              \<and> (\<forall>k. j \<le> k \<and> k < j1 \<and> k < m \<longrightarrow> dm ! i ! k = 0)
              \<and> (j1 < m \<longrightarrow> dm ! i ! j1 \<noteq> 0)"
    proof (cases "v = 0")
      case True
      then have "f mem dm i (Suc j) = Some r" using eq rd by simp
      then have "shape n m dm \<longrightarrow> i < n \<longrightarrow>
           (\<exists>j1. r = Inr j1 \<and> Suc j \<le> j1
              \<and> (\<forall>k. Suc j \<le> k \<and> k < j1 \<and> k < m \<longrightarrow> dm ! i ! k = 0)
              \<and> (j1 < m \<longrightarrow> dm ! i ! j1 \<noteq> 0))"
        by (rule IH)
      then have "\<exists>j1. r = Inr j1 \<and> Suc j \<le> j1
              \<and> (\<forall>k. Suc j \<le> k \<and> k < j1 \<and> k < m \<longrightarrow> dm ! i ! k = 0)
              \<and> (j1 < m \<longrightarrow> dm ! i ! j1 \<noteq> 0)"
        using sh i by (elim impE) assumption+
      then obtain j1 where r: "r = Inr j1" and le: "Suc j \<le> j1"
        and zs: "\<forall>k. Suc j \<le> k \<and> k < j1 \<and> k < m \<longrightarrow> dm ! i ! k = 0"
        and nz: "j1 < m \<longrightarrow> dm ! i ! j1 \<noteq> 0"
        by (elim exE conjE)
      have "\<forall>k. j \<le> k \<and> k < j1 \<and> k < m \<longrightarrow> dm ! i ! k = 0"
      proof (intro allI impI)
        fix k assume k: "j \<le> k \<and> k < j1 \<and> k < m"
        show "dm ! i ! k = 0"
        proof (cases "k = j")
          case True
          then show ?thesis using k \<open>v = 0\<close> by (simp add: v_def)
        next
          case False
          then show ?thesis using k zs by simp
        qed
      qed
      moreover have "j \<le> j1" using le by simp
      ultimately show ?thesis using r nz by (intro exI [of _ j1] conjI)
    next
      case False
      then have "r = Inr j" using eq rd by simp
      moreover have "j < m \<longrightarrow> dm ! i ! j \<noteq> 0" using False by (auto simp: v_def)
      moreover have "\<forall>k. j \<le> k \<and> k < j \<and> k < m \<longrightarrow> dm ! i ! k = 0" by simp
      ultimately show ?thesis by (intro exI [of _ j] conjI) simp_all
    qed
  qed
qed

lemma skipUnset_unchecked_agree:
  assumes sh: "shape n m dm" and i: "i < n"
    and run: "skipUnset_unchecked mem dm i j = Some (Inr j1)"
    and run': "skipUnset_unchecked mem' dm i j' = Some (Inr j1')"
    and start: "j = j' \<or> (m \<le> j \<and> m \<le> j')"
  shows "j1 = j1' \<or> (m \<le> j1 \<and> m \<le> j1')"
proof -
  have a: "j \<le> j1" and az: "\<forall>k. j \<le> k \<and> k < j1 \<and> k < m \<longrightarrow> dm ! i ! k = 0"
    and an: "j1 < m \<longrightarrow> dm ! i ! j1 \<noteq> 0"
    using skipUnset_unchecked_result [OF run, of n m] sh i by auto
  have b: "j' \<le> j1'" and bz: "\<forall>k. j' \<le> k \<and> k < j1' \<and> k < m \<longrightarrow> dm ! i ! k = 0"
    and bn: "j1' < m \<longrightarrow> dm ! i ! j1' \<noteq> 0"
    using skipUnset_unchecked_result [OF run', of n m] sh i by auto
  show ?thesis
  proof (cases "m \<le> j \<and> m \<le> j'")
    case True
    then show ?thesis using a b by simp
  next
    case False
    then have jj: "j = j'" using start by blast
    show ?thesis
    proof (cases "j1 < m")
      case True
      then have nz: "dm ! i ! j1 \<noteq> 0" using an by simp
      have "\<not> j1 < j1'" using bz nz a True jj by auto
      moreover have "\<not> j1' < j1"
      proof
        assume lt: "j1' < j1"
        then have "j1' < m" using True by simp
        then have "dm ! i ! j1' \<noteq> 0" using bn by simp
        moreover have "dm ! i ! j1' = 0" using az b lt \<open>j1' < m\<close> jj by simp
        ultimately show False by simp
      qed
      ultimately show ?thesis by simp
    next
      case False
      have "\<not> j1' < m"
      proof
        assume lt: "j1' < m"
        then have "dm ! i ! j1' \<noteq> 0" using bn by simp
        moreover have "dm ! i ! j1' = 0" using az b lt False jj by simp
        ultimately show False by simp
      qed
      then show ?thesis using False by simp
    qed
  qed
qed

lemma sweepRow_unchecked_past:
  assumes "shape n m dm" and "i < n" and "m \<le> j"
  shows "sweepRow_unchecked maxT beyond dm m i j fm = Inr fm"
  using mread_shape [OF assms(1,2), of "beyond fm" j] assms(3)
  by (subst sweepRow_unchecked.simps) simp

lemma sweepRow_unchecked_memory:
  "shape n m dm \<Longrightarrow> i < n
     \<Longrightarrow> sweepRow_unchecked maxT beyond dm m i j fm = sweepRow_unchecked maxT beyond' dm m i j fm"
proof (induction maxT beyond dm m i j fm rule: sweepRow_unchecked.induct)
  case (1 maxT beyond dm m i j fm)
  note sh = "1.prems"(1) and i = "1.prems"(2)
  show ?case
  proof (cases "j < m")
    case False
    then have "m \<le> j" by simp
    then show ?thesis
      using sweepRow_unchecked_past [OF sh i] by simp
  next
    case True
    have rd: "mread (beyond fm) dm i j = Inr (dm ! i ! j)"
      using mread_shape [OF sh i, of "beyond fm" j] True by simp
    have rd': "mread (beyond' fm) dm i j = Inr (dm ! i ! j)"
      using mread_shape [OF sh i, of "beyond' fm" j] True by simp
    show ?thesis
    proof (cases "dm ! i ! j = 0")
      case z: True
      have "sweepRow_unchecked maxT beyond dm m i j fm = Inr fm"
        using rd z by (subst sweepRow_unchecked.simps) simp
      moreover have "sweepRow_unchecked maxT beyond' dm m i j fm = Inr fm"
        using rd' z by (subst sweepRow_unchecked.simps) simp
      ultimately show ?thesis by simp
    next
      case nz: False
      show ?thesis
      proof (cases "coupleCell maxT dm fm i j")
        case (Inl e)
        have "sweepRow_unchecked maxT beyond dm m i j fm = Inl e"
          using rd nz True Inl by (subst sweepRow_unchecked.simps) simp
        moreover have "sweepRow_unchecked maxT beyond' dm m i j fm = Inl e"
          using rd' nz True Inl by (subst sweepRow_unchecked.simps) simp
        ultimately show ?thesis by simp
      next
        case c: (Inr c)
        show ?thesis
        proof (cases "mput fm i j c")
          case (Inl e)
          have "sweepRow_unchecked maxT beyond dm m i j fm = Inl e"
            using rd nz True c Inl by (subst sweepRow_unchecked.simps) simp
          moreover have "sweepRow_unchecked maxT beyond' dm m i j fm = Inl e"
            using rd' nz True c Inl by (subst sweepRow_unchecked.simps) simp
          ultimately show ?thesis by simp
        next
          case fm': (Inr fm')
          have "sweepRow_unchecked maxT beyond dm m i j fm
                  = sweepRow_unchecked maxT beyond dm m i (Suc j) fm'"
            using rd nz True c fm' by (subst sweepRow_unchecked.simps) simp
          moreover have "sweepRow_unchecked maxT beyond' dm m i j fm
                  = sweepRow_unchecked maxT beyond' dm m i (Suc j) fm'"
            using rd' nz True c fm' by (subst sweepRow_unchecked.simps) simp
          moreover have "sweepRow_unchecked maxT beyond dm m i (Suc j) fm'
                  = sweepRow_unchecked maxT beyond' dm m i (Suc j) fm'"
            using "1.IH" [OF rd _ c fm' sh i] nz True by simp
          ultimately show ?thesis by simp
        qed
      qed
    qed
  qed
qed


lemma sweepRow_unchecked_shape:
  "shape n m dm \<Longrightarrow> shape n m fm \<Longrightarrow> i < n
     \<Longrightarrow> \<exists>fm'. sweepRow_unchecked maxT beyond dm m i j fm = Inr fm' \<and> shape n m fm'
              \<and> (\<forall>i'. i' \<noteq> i \<longrightarrow> fm' ! i' = fm ! i')"
proof (induction maxT beyond dm m i j fm rule: sweepRow_unchecked.induct)
  case (1 maxT beyond dm m i j fm)
  note dm = "1.prems"(1) and fm = "1.prems"(2) and i = "1.prems"(3)
  show ?case
  proof (cases "j < m \<and> dm ! i ! j \<noteq> 0")
    case False
    have "sweepRow_unchecked maxT beyond dm m i j fm = Inr fm"
      using mread_shape [OF dm i, of "beyond fm" j] False
      by (subst sweepRow_unchecked.simps) auto
    then show ?thesis using fm by simp
  next
    case True
    then have j: "j < m" and nz: "dm ! i ! j \<noteq> 0" by simp_all
    have rd: "mread (beyond fm) dm i j = Inr (dm ! i ! j)"
      using mread_shape [OF dm i, of "beyond fm" j] j by simp
    obtain c where c: "coupleCell maxT dm fm i j = Inr c"
      using coupleCell_in_range [OF dm fm i j] by blast
    let ?fm1 = "fm[i := (fm ! i)[j := c]]"
    have put: "mput fm i j c = Inr ?fm1" using mput_shape(1) [OF fm i j] .
    have sh1: "shape n m ?fm1" using mput_shape(2) [OF fm i j] .
    have unfold: "sweepRow_unchecked maxT beyond dm m i j fm
                    = sweepRow_unchecked maxT beyond dm m i (Suc j) ?fm1"
      using rd nz j c put by (subst sweepRow_unchecked.simps) simp
    have cond: "dm ! i ! j \<noteq> 0 \<and> j < m" using nz j by simp
    obtain fm' where run: "sweepRow_unchecked maxT beyond dm m i (Suc j) ?fm1 = Inr fm'"
      and sh': "shape n m fm'" and rows: "\<forall>i'. i' \<noteq> i \<longrightarrow> fm' ! i' = ?fm1 ! i'"
      using "1.IH" [OF rd cond c put dm sh1 i] by blast
    have "\<forall>i'. i' \<noteq> i \<longrightarrow> fm' ! i' = fm ! i'" using rows by simp
    then show ?thesis using unfold run sh' by simp
  qed
qed

lemma coupleCell_bounded:
  assumes dm: "shape n m dm" and fm: "shape n m fm" and i: "i < n" and j: "j < m"
    and bf: "bounded (maxT - 1) n m fm" and bd: "dm ! i ! j \<le> maxT - 1"
    and c: "coupleCell maxT dm fm i j = Inr c"
  shows "c \<le> maxT - 1"
proof -
  define S where "S = maxT - 1"
  define x where "x = fm ! (i - 1) ! (j - 1)"
  define y where "y = fm ! (i - 1) ! j"
  define z where "z = fm ! i ! (j - 1)"
  have x: "x \<le> S" and y: "y \<le> S" and z: "z \<le> S"
    using bf i j by (simp_all add: bounded_def x_def y_def z_def S_def)
  define minimum1 where
    "minimum1 = (if 0 < i \<and> 0 < j \<and> dm ! (i - 1) ! (j - 1) \<noteq> 0 then x else S)"
  define minimum2 where
    "minimum2 = (if 0 < i \<and> dm ! (i - 1) ! j \<noteq> 0 then min minimum1 y else minimum1)"
  define minimum where
    "minimum = (if 0 < j \<and> dm ! i ! (j - 1) \<noteq> 0 then min minimum2 z else minimum2)"
  have "minimum1 \<le> S" using x by (simp add: minimum1_def)
  then have "minimum2 \<le> S" by (simp add: minimum2_def min_le_iff_disj)
  then have le: "minimum \<le> S" by (simp add: minimum_def min_le_iff_disj)
  have "coupleCell maxT dm fm i j = Inr (max minimum (dm ! i ! j))"
    unfolding minimum_def minimum2_def minimum1_def x_def y_def z_def S_def
    using coupleCell_in_range [OF dm fm i j, of maxT] by (simp only: Let_def)
  then have "c = max minimum (dm ! i ! j)" using c by simp
  then show ?thesis using le bd by (simp add: S_def)
qed

lemma sweepRow_unchecked_bounded:
  "shape n m dm \<Longrightarrow> shape n m fm \<Longrightarrow> i < n
     \<Longrightarrow> bounded (maxT - 1) n m dm \<Longrightarrow> bounded (maxT - 1) n m fm
     \<Longrightarrow> sweepRow_unchecked maxT beyond dm m i j fm = Inr fm'
     \<Longrightarrow> bounded (maxT - 1) n m fm'"
proof (induction maxT beyond dm m i j fm rule: sweepRow_unchecked.induct)
  case (1 maxT beyond dm m i j fm)
  note dm = "1.prems"(1) and fm = "1.prems"(2) and i = "1.prems"(3)
    and bd = "1.prems"(4) and bf = "1.prems"(5) and run = "1.prems"(6)
  show ?case
  proof (cases "j < m \<and> dm ! i ! j \<noteq> 0")
    case False
    have "sweepRow_unchecked maxT beyond dm m i j fm = Inr fm"
      using mread_shape [OF dm i, of "beyond fm" j] False
      by (subst sweepRow_unchecked.simps) auto
    then show ?thesis using bf run by simp
  next
    case True
    then have j: "j < m" and nz: "dm ! i ! j \<noteq> 0" by simp_all
    have rd: "mread (beyond fm) dm i j = Inr (dm ! i ! j)"
      using mread_shape [OF dm i, of "beyond fm" j] j by simp
    obtain c where c: "coupleCell maxT dm fm i j = Inr c"
      using coupleCell_in_range [OF dm fm i j] by blast
    have cle: "c \<le> maxT - 1"
      using coupleCell_bounded [OF dm fm i j bf _ c] bd i j by (simp add: bounded_def)
    let ?fm1 = "fm[i := (fm ! i)[j := c]]"
    have put: "mput fm i j c = Inr ?fm1" using mput_shape(1) [OF fm i j] .
    have sh1: "shape n m ?fm1" using mput_shape(2) [OF fm i j] .
    have b1: "bounded (maxT - 1) n m ?fm1"
      unfolding bounded_def
    proof (intro allI impI)
      fix a b assume a: "a < n" and b: "b < m"
      have "?fm1 ! a ! b = (if a = i \<and> b = j then c else fm ! a ! b)"
        using mput_shape(3) [OF fm i j a b] .
      then show "?fm1 ! a ! b \<le> maxT - 1"
        using cle bf a b by (simp add: bounded_def)
    qed
    have unfold: "sweepRow_unchecked maxT beyond dm m i j fm
                    = sweepRow_unchecked maxT beyond dm m i (Suc j) ?fm1"
      using rd nz j c put by (subst sweepRow_unchecked.simps) simp
    have cond: "dm ! i ! j \<noteq> 0 \<and> j < m" using nz j by simp
    have "sweepRow_unchecked maxT beyond dm m i (Suc j) ?fm1 = Inr fm'"
      using unfold run by simp
    then show ?thesis
      using "1.IH" [OF rd cond c put dm sh1 i bd b1] by simp
  qed
qed

lemma sweepRows_unchecked_agree:
  "shape n m dm \<Longrightarrow> shape n m fm
     \<Longrightarrow> sweepRows_unchecked maxT beyond dm n m i j fm = Some (Inr r)
     \<Longrightarrow> sweepRows_unchecked maxT beyond' dm n m i j' fm = Some (Inr r')
     \<Longrightarrow> j = j' \<or> (m \<le> j \<and> m \<le> j') \<Longrightarrow> r = r'"
proof (induction maxT beyond dm n m i j fm arbitrary: j' rule: sweepRows_unchecked.induct)
  case (1 maxT beyond dm n m i jMin fm)
  note dm = "1.prems"(1) and fm = "1.prems"(2) and run = "1.prems"(3)
    and run' = "1.prems"(4) and start = "1.prems"(5)
  show ?case
  proof (cases "i < n")
    case False
    have "sweepRows_unchecked maxT beyond dm n m i jMin fm = Some (Inr fm)"
      using False by (subst sweepRows_unchecked.simps) simp
    moreover have "sweepRows_unchecked maxT beyond' dm n m i j' fm = Some (Inr fm)"
      using False by (subst sweepRows_unchecked.simps) simp
    ultimately show ?thesis using run run' by simp
  next
    case i: True
    obtain j1 where skip: "skipUnset_unchecked (beyond fm) dm i jMin = Some (Inr j1)"
      using run i
      by (subst (asm) sweepRows_unchecked.simps) (auto split: option.splits sum.splits)
    obtain j1' where skip': "skipUnset_unchecked (beyond' fm) dm i j' = Some (Inr j1')"
      using run' i
      by (subst (asm) sweepRows_unchecked.simps) (auto split: option.splits sum.splits)
    have cols: "j1 = j1' \<or> (m \<le> j1 \<and> m \<le> j1')"
      using skipUnset_unchecked_agree [OF dm i skip skip' start] .
    obtain fm1 where row: "sweepRow_unchecked maxT beyond dm m i j1 fm = Inr fm1"
      and sh1: "shape n m fm1"
      using sweepRow_unchecked_shape [OF dm fm i] by blast
    obtain fm1' where row': "sweepRow_unchecked maxT beyond' dm m i j1' fm = Inr fm1'"
      using sweepRow_unchecked_shape [OF dm fm i] by blast
    have same: "fm1' = fm1"
    proof (cases "j1 = j1'")
      case True
      then show ?thesis
        using row row' sweepRow_unchecked_memory [OF dm i, of maxT beyond j1 fm beyond']
        by simp
    next
      case False
      then have "m \<le> j1" and "m \<le> j1'" using cols by simp_all
      then show ?thesis
        using row row' sweepRow_unchecked_past [OF dm i] by simp
    qed
    have next1: "sweepRows_unchecked maxT beyond dm n m (Suc i) j1 fm1 = Some (Inr r)"
      using run i skip row by (subst (asm) sweepRows_unchecked.simps) simp
    have next2: "sweepRows_unchecked maxT beyond' dm n m (Suc i) j1' fm1 = Some (Inr r')"
      using run' i skip' row' same by (subst (asm) sweepRows_unchecked.simps) simp
    show ?thesis
      using "1.IH" [OF i skip refl row dm sh1 next1 next2 cols] .
  qed
qed

lemma sweepRows_unchecked_returns:
  "shape n m dm \<Longrightarrow> shape n m fm
     \<Longrightarrow> \<forall>a. 0 < a \<and> a < n \<longrightarrow>
           col a < m \<and> dm ! a ! col a \<noteq> 0 \<and> (\<forall>k < col a. dm ! a ! k = 0)
     \<Longrightarrow> \<forall>a. 0 < a \<and> Suc a < n \<longrightarrow> col a \<le> col (Suc a)
     \<Longrightarrow> 0 < i \<Longrightarrow> i < n \<longrightarrow> jMin \<le> col i
     \<Longrightarrow> \<exists>r. sweepRows_unchecked maxT beyond dm n m i jMin fm = Some (Inr r)
            \<and> shape n m r \<and> r ! 0 = fm ! 0"
proof (induction maxT beyond dm n m i jMin fm rule: sweepRows_unchecked.induct)
  case (1 maxT beyond dm n m i jMin fm)
  note dm = "1.prems"(1) and fm = "1.prems"(2) and cells = "1.prems"(3)
    and mono = "1.prems"(4) and pos = "1.prems"(5) and start = "1.prems"(6)
  show ?case
  proof (cases "i < n")
    case False
    have "sweepRows_unchecked maxT beyond dm n m i jMin fm = Some (Inr fm)"
      using False by (subst sweepRows_unchecked.simps) simp
    then show ?thesis using fm by simp
  next
    case i: True
    have c: "col i < m" and nz: "dm ! i ! col i \<noteq> 0" and zs: "\<forall>k < col i. dm ! i ! k = 0"
      using cells pos i by simp_all
    have le: "jMin \<le> col i" using start i by simp
    have skip: "skipUnset_unchecked (beyond fm) dm i jMin = Some (Inr (col i))"
      by (rule skipUnset_unchecked_found [OF dm i c nz le]) (use zs in simp)
    obtain fm1 where row: "sweepRow_unchecked maxT beyond dm m i (col i) fm = Inr fm1"
      and sh1: "shape n m fm1" and rows: "\<forall>i'. i' \<noteq> i \<longrightarrow> fm1 ! i' = fm ! i'"
      using sweepRow_unchecked_shape [OF dm fm i] by blast
    have unfold: "sweepRows_unchecked maxT beyond dm n m i jMin fm
                    = sweepRows_unchecked maxT beyond dm n m (Suc i) (col i) fm1"
      using i skip row by (subst sweepRows_unchecked.simps) simp
    have start': "Suc i < n \<longrightarrow> col i \<le> col (Suc i)" using mono pos by simp
    obtain r where run: "sweepRows_unchecked maxT beyond dm n m (Suc i) (col i) fm1
                           = Some (Inr r)"
      and shr: "shape n m r" and r0: "r ! 0 = fm1 ! 0"
      using "1.IH" [OF i skip refl row dm sh1 cells mono _ start'] by auto
    have "fm1 ! 0 = fm ! 0" using rows pos by simp
    then show ?thesis using unfold run shr r0 by simp
  qed
qed


lemma predCouplings_bounded:
  assumes "shape n m fm" and "bounded S n m fm" and "i < n" and "j < m"
  shows "\<forall>c \<in> set (predCouplings dm fm i j). c \<le> S"
proof -
  have "i - 1 < n" and "j - 1 < m" using assms(3,4) by simp_all
  then show ?thesis
    using assms(2,3,4) by (auto simp: predCouplings_def bounded_def)
qed

lemma predCouplings_update:
  assumes fm: "shape n m fm" and i: "i < n" and j: "j < m"
  shows "predCouplings dm (fm[i := (fm ! i)[j := v]]) i j = predCouplings dm fm i j"
proof -
  let ?fm1 = "fm[i := (fm ! i)[j := v]]"
  have i1: "i - 1 < n" and j1: "j - 1 < m" using i j by simp_all
  have a: "0 < i \<Longrightarrow> ?fm1 ! (i - 1) ! (j - 1) = fm ! (i - 1) ! (j - 1)"
    using mput_shape(3) [OF fm i j i1 j1, of v] by simp
  have b: "0 < i \<Longrightarrow> ?fm1 ! (i - 1) ! j = fm ! (i - 1) ! j"
    using mput_shape(3) [OF fm i j i1 j, of v] by simp
  have c: "0 < j \<Longrightarrow> ?fm1 ! i ! (j - 1) = fm ! i ! (j - 1)"
  proof -
    assume "0 < j"
    then have "j - 1 \<noteq> j" by simp
    then show ?thesis using mput_shape(3) [OF fm i j i j1, of v] by simp
  qed
  have A: "(if 0 < i \<and> 0 < j \<and> dm ! (i - 1) ! (j - 1) \<noteq> 0
            then [?fm1 ! (i - 1) ! (j - 1)] else [])
         = (if 0 < i \<and> 0 < j \<and> dm ! (i - 1) ! (j - 1) \<noteq> 0
            then [fm ! (i - 1) ! (j - 1)] else [])"
    using a by (cases "0 < i") simp_all
  have B: "(if 0 < i \<and> dm ! (i - 1) ! j \<noteq> 0 then [?fm1 ! (i - 1) ! j] else [])
         = (if 0 < i \<and> dm ! (i - 1) ! j \<noteq> 0 then [fm ! (i - 1) ! j] else [])"
    using b by (cases "0 < i") simp_all
  have C: "(if 0 < j \<and> dm ! i ! (j - 1) \<noteq> 0 then [?fm1 ! i ! (j - 1)] else [])
         = (if 0 < j \<and> dm ! i ! (j - 1) \<noteq> 0 then [fm ! i ! (j - 1)] else [])"
    using c by (cases "0 < j") simp_all
  show ?thesis
    unfolding predCouplings_def by (simp only: A B C)
qed

lemma couplingRule_update:
  assumes fm: "shape n m fm" and i: "i < n" and j: "j < m"
  shows "couplingRule maxT dm (fm[i := (fm ! i)[j := v]]) i j = couplingRule maxT dm fm i j"
  by (simp only: couplingRule_def predCouplings_update [OF fm i j])

lemma sweepRow_unchecked_step:
  assumes dm: "shape n m dm" and fm: "shape n m fm" and i: "i < n" and j: "j < m"
    and bound: "\<forall>c \<in> set (predCouplings dm fm i j). c \<le> maxT - 1"
    and nz: "dm ! i ! j \<noteq> 0"
  shows "sweepRow_unchecked maxT beyond dm m i j fm
           = sweepRow_unchecked maxT beyond dm m i (Suc j)
               (fm[i := (fm ! i)[j := couplingRule maxT dm fm i j]])"
proof -
  have rd: "mread (beyond fm) dm i j = Inr (dm ! i ! j)"
    using mread_shape [OF dm i, of "beyond fm" j] j by simp
  have cell: "coupleCell maxT dm fm i j = Inr (couplingRule maxT dm fm i j)"
    using coupleCell_rule [OF dm fm i j bound] .
  have put: "mput fm i j (couplingRule maxT dm fm i j)
               = Inr (fm[i := (fm ! i)[j := couplingRule maxT dm fm i j]])"
    using mput_shape(1) [OF fm i j] .
  show ?thesis
    using rd cell put nz j by (subst sweepRow_unchecked.simps) simp
qed

lemma sweepRows_unchecked_terminal:
  "shape n m dm \<Longrightarrow> shape n m fm
     \<Longrightarrow> bounded (maxT - 1) n m dm \<Longrightarrow> bounded (maxT - 1) n m fm
     \<Longrightarrow> \<forall>a. 0 < a \<and> a < n \<longrightarrow>
           col a < m \<and> dm ! a ! col a \<noteq> 0 \<and> (\<forall>k < col a. dm ! a ! k = 0)
     \<Longrightarrow> \<forall>a. 0 < a \<and> Suc a < n \<longrightarrow> col a \<le> col (Suc a)
     \<Longrightarrow> col (n - 1) = m - 1
     \<Longrightarrow> 0 < i \<Longrightarrow> i < n \<Longrightarrow> jMin \<le> col i
     \<Longrightarrow> \<exists>r. sweepRows_unchecked maxT beyond dm n m i jMin fm = Some (Inr r)
            \<and> r ! (n - 1) ! (m - 1) = couplingRule maxT dm r (n - 1) (m - 1)"
proof (induction maxT beyond dm n m i jMin fm rule: sweepRows_unchecked.induct)
  case (1 maxT beyond dm n m i jMin fm)
  note dm = "1.prems"(1) and fm = "1.prems"(2) and bd = "1.prems"(3) and bf = "1.prems"(4)
    and cells = "1.prems"(5) and mono = "1.prems"(6) and last = "1.prems"(7)
    and pos = "1.prems"(8) and i = "1.prems"(9) and le = "1.prems"(10)
  have c: "col i < m" and nz: "dm ! i ! col i \<noteq> 0" and zs: "\<forall>k < col i. dm ! i ! k = 0"
    using cells pos i by simp_all
  have skip: "skipUnset_unchecked (beyond fm) dm i jMin = Some (Inr (col i))"
    by (rule skipUnset_unchecked_found [OF dm i c nz le]) (use zs in simp)
  obtain fm1 where row: "sweepRow_unchecked maxT beyond dm m i (col i) fm = Inr fm1"
    and sh1: "shape n m fm1"
    using sweepRow_unchecked_shape [OF dm fm i] by blast
  have b1: "bounded (maxT - 1) n m fm1"
    using sweepRow_unchecked_bounded [OF dm fm i bd bf row] .
  have unfold: "sweepRows_unchecked maxT beyond dm n m i jMin fm
                  = sweepRows_unchecked maxT beyond dm n m (Suc i) (col i) fm1"
    using i skip row by (subst sweepRows_unchecked.simps) simp
  show ?case
  proof (cases "Suc i < n")
    case True
    have start': "col i \<le> col (Suc i)" using mono pos True by simp
    show ?thesis
      using "1.IH" [OF i skip refl row dm sh1 bd b1 cells mono last _ True start'] unfold
      by simp
  next
    case False
    then have il: "i = n - 1" using i by simp
    have cl: "col i = m - 1" using last il by simp
    have sj: "Suc (col i) = m" using c cl by simp
    let ?v = "couplingRule maxT dm fm i (col i)"
    let ?r = "fm[i := (fm ! i)[col i := ?v]]"
    have bound: "\<forall>c \<in> set (predCouplings dm fm i (col i)). c \<le> maxT - 1"
      using predCouplings_bounded [OF fm bf i c] .
    have "sweepRow_unchecked maxT beyond dm m i (col i) fm
            = sweepRow_unchecked maxT beyond dm m i (Suc (col i)) ?r"
      using sweepRow_unchecked_step [OF dm fm i c bound nz] .
    also have "\<dots> = Inr ?r"
      using sweepRow_unchecked_past [OF dm i, of "Suc (col i)"] sj by simp
    finally have fm1: "fm1 = ?r" using row by simp
    have stop: "sweepRows_unchecked maxT beyond dm n m (Suc i) (col i) fm1 = Some (Inr fm1)"
      using False by (subst sweepRows_unchecked.simps) simp
    have "?r ! i ! col i = ?v"
      using mput_shape(3) [OF fm i c i c, of ?v] by simp
    moreover have "couplingRule maxT dm ?r i (col i) = ?v"
      by (rule couplingRule_update [OF fm i c])
    ultimately have "fm1 ! (n - 1) ! (m - 1) = couplingRule maxT dm fm1 (n - 1) (m - 1)"
      unfolding fm1 using il cl by simp
    then show ?thesis using unfold stop by simp
  qed
qed

lemma coreColumn_le: "coreColumn n m i \<le> i"
proof -
  have "(i - n mod m) div (n div m) \<le> i"
    by (rule order_trans [OF div_le_dividend]) simp
  then show ?thesis by (simp add: coreColumn_def Let_def div_le_dividend)
qed

lemma coreColumn_mono:
  fixes n m i i' :: nat
  assumes m1: "1 \<le> m" and mn: "m \<le> n" and le: "i \<le> i'"
  shows "coreColumn n m i \<le> coreColumn n m i'"
proof -
  define q where "q = n div m"
  define r where "r = n mod m"
  have "0 < n div m" using m1 mn by (simp add: div_greater_zero_iff)
  then have q: "0 < q" by (simp add: q_def)
  show ?thesis
  proof (cases "i' \<le> r * (q + 1)")
    case True
    then have "i \<le> r * (q + 1)" using le by simp
    then have "coreColumn n m i = i div (q + 1)"
      unfolding q_def r_def by (rule coreColumn_head)
    moreover have "coreColumn n m i' = i' div (q + 1)"
      using True unfolding q_def r_def by (rule coreColumn_head)
    ultimately show ?thesis using le by (simp add: div_le_mono)
  next
    case False
    then have big: "r * (q + 1) \<le> i'" by simp
    have c': "coreColumn n m i' = (i' - r) div q"
      using coreColumn_tail [OF m1 mn, of i'] big by (simp add: q_def r_def)
    show ?thesis
    proof (cases "i \<le> r * (q + 1)")
      case True
      then have "coreColumn n m i = i div (q + 1)"
        unfolding q_def r_def by (rule coreColumn_head)
      also have "\<dots> \<le> (r * (q + 1)) div (q + 1)" using True by (rule div_le_mono)
      also have "\<dots> = r" by (rule div_mult_self_is_m) simp
      also have "r = (r * q) div q" using q by simp
      also have "\<dots> \<le> (i' - r) div q"
      proof (rule div_le_mono)
        have "r * (q + 1) = r * q + r" by simp
        then show "r * q \<le> i' - r" using big by linarith
      qed
      finally show ?thesis using c' by simp
    next
      case False
      then have "r * (q + 1) \<le> i" by simp
      then have "coreColumn n m i = (i - r) div q"
        using coreColumn_tail [OF m1 mn, of i] by (simp add: q_def r_def)
      moreover have "(i - r) div q \<le> (i' - r) div q"
        using le by (intro div_le_mono diff_le_mono)
      ultimately show ?thesis using c' by simp
    qed
  qed
qed

lemma euclid_distinct:
  assumes "length p = length q" and "p \<noteq> q"
  shows "euclid p q \<noteq> 0"
proof
  assume "euclid p q = 0"
  then have "sqEuclid p q = 0" by (simp add: euclid_def)
  then have "\<forall>k \<in> {..<length p}. (p ! k - q ! k)\<^sup>2 = 0"
    unfolding sqEuclid_def by (subst (asm) sum_nonneg_eq_0_iff) simp_all
  then have "\<forall>k < length p. p ! k = q ! k" by simp
  then have "p = q" using assms(1) by (intro nth_equalityI) simp_all
  then show False using assms(2) by simp
qed


lemma coreColumn_0: "coreColumn n m 0 = 0"
  using coreColumn_le [of n m 0] by simp

lemma bandedMatrix_columns:
  assumes lenA: "length A = n" and lenB: "length B = m" and m1: "1 \<le> m" and mn: "m \<le> n"
    and dimA: "uniformDim k A" and dimB: "uniformDim k B"
  shows "\<exists>dm. bandedMatrix dInit A B []
            = Some (Inr (Max ((\<lambda>i. euclid (A ! i) (B ! coreColumn n m i)) ` {..<n}), dm))
          \<and> shape n m dm
          \<and> dm ! 0 ! 0 = euclid (A ! 0) (B ! 0)
          \<and> (\<forall>a < n. coreColumn n m a < m
                \<and> dm ! a ! coreColumn n m a = euclid (A ! a) (B ! coreColumn n m a)
                \<and> (A ! a \<noteq> B ! coreColumn n m a \<longrightarrow> dm ! a ! coreColumn n m a \<noteq> 0)
                \<and> (\<forall>k < coreColumn n m a. dm ! a ! k = 0))
          \<and> (\<forall>S. (\<forall>a < n. euclid (A ! a) (B ! coreColumn n m a) \<le> S)
                \<longrightarrow> 0 \<le> S \<and> bounded S n m dm)"
proof -
  let ?core = "\<lambda>i. euclid (A ! i) (B ! coreColumn n m i)"
  let ?diagMax = "Max (?core ` {..<n})"
  have n0: "0 < n" and m0: "0 < m" using m1 mn by simp_all
  obtain dm where
    run: "bandedMatrix dInit A B [] = Some (Inr (?diagMax, dm))"
    and sh: "shape n m dm"
    and cells: "\<forall>i < n. \<forall>j < m. dm ! i ! j =
                 (if i = j \<and> euclid (A ! j) (B ! j) < ?diagMax
                  then euclid (A ! j) (B ! j)
                  else if j = coreColumn n m i then euclid (A ! i) (B ! j) else 0)"
    using bandedMatrix_closed [OF lenA lenB m1 mn uniformDim_fits [OF dimA dimB]] by blast
  have first: "dm ! 0 ! 0 = euclid (A ! 0) (B ! 0)"
    using cells n0 m0 by (simp add: coreColumn_0)
  have cols: "\<forall>a < n. coreColumn n m a < m
                \<and> dm ! a ! coreColumn n m a = euclid (A ! a) (B ! coreColumn n m a)
                \<and> (A ! a \<noteq> B ! coreColumn n m a \<longrightarrow> dm ! a ! coreColumn n m a \<noteq> 0)
                \<and> (\<forall>k < coreColumn n m a. dm ! a ! k = 0)"
  proof (intro allI impI)
    fix a assume a: "a < n"
    have c: "coreColumn n m a < m" using coreColumn_less [OF m1 mn a] .
    have v: "dm ! a ! coreColumn n m a = euclid (A ! a) (B ! coreColumn n m a)"
      using cells a c by auto
    have len: "length (A ! a) = length (B ! coreColumn n m a)"
      using dimA dimB a c lenA lenB by (simp add: uniformDim_def)
    have nz: "A ! a \<noteq> B ! coreColumn n m a \<longrightarrow> dm ! a ! coreColumn n m a \<noteq> 0"
      using euclid_distinct [OF len] v by simp
    have zs: "\<forall>k < coreColumn n m a. dm ! a ! k = 0"
    proof (intro allI impI)
      fix k assume k: "k < coreColumn n m a"
      then have "k < m" using c by simp
      moreover have "k \<noteq> a" using k coreColumn_le [of n m a] by simp
      moreover have "k \<noteq> coreColumn n m a" using k by simp
      ultimately show "dm ! a ! k = 0" using cells a by simp
    qed
    show "coreColumn n m a < m
            \<and> dm ! a ! coreColumn n m a = euclid (A ! a) (B ! coreColumn n m a)
            \<and> (A ! a \<noteq> B ! coreColumn n m a \<longrightarrow> dm ! a ! coreColumn n m a \<noteq> 0)
            \<and> (\<forall>k < coreColumn n m a. dm ! a ! k = 0)"
      using c v nz zs by (intro conjI)
  qed
  have bnd: "\<forall>S. (\<forall>a < n. euclid (A ! a) (B ! coreColumn n m a) \<le> S)
                \<longrightarrow> 0 \<le> S \<and> bounded S n m dm"
  proof (intro allI impI)
    fix S assume le: "\<forall>a < n. euclid (A ! a) (B ! coreColumn n m a) \<le> S"
    have "0 \<le> ?core 0" by (rule euclid_nonneg)
    then have S0: "0 \<le> S" using le n0 by force
    have "?diagMax \<in> ?core ` {..<n}"
      using n0 by (intro Max_in) auto
    then have dS: "?diagMax \<le> S" using le by auto
    have "bounded S n m dm"
      unfolding bounded_def
    proof (intro allI impI)
      fix i j assume i: "i < n" and j: "j < m"
      have cell: "dm ! i ! j =
                 (if i = j \<and> euclid (A ! j) (B ! j) < ?diagMax
                  then euclid (A ! j) (B ! j)
                  else if j = coreColumn n m i then euclid (A ! i) (B ! j) else 0)"
        using cells i j by simp
      show "dm ! i ! j \<le> S"
      proof (cases "i = j \<and> euclid (A ! j) (B ! j) < ?diagMax")
        case True
        then show ?thesis using cell dS by simp
      next
        case False
        then show ?thesis using cell le i S0 by auto
      qed
    qed
    then show "0 \<le> S \<and> bounded S n m dm" using S0 by simp
  qed
  show ?thesis using run sh first cols bnd by blast
qed

lemma couplingMatrix_unchecked_base:
  assumes dm: "shape n m dm" and n: "0 < n" and m: "0 < m"
  shows "couplingMatrix_unchecked maxT beyond n m dm []
           = sweepRows_unchecked maxT beyond dm n m 1 0
               ((replicate n (replicate m 0))[0 := (replicate m 0)[0 := dm ! 0 ! 0]])"
    and "shape n m ((replicate n (replicate m 0))[0 := (replicate m 0)[0 := dm ! 0 ! 0]])"
    and "((replicate n (replicate m 0))[0 := (replicate m 0)[0 := dm ! 0 ! 0]]) ! 0 ! 0
           = dm ! 0 ! 0"
    and "0 \<le> S \<Longrightarrow> dm ! 0 ! 0 \<le> S
           \<Longrightarrow> bounded S n m ((replicate n (replicate m 0))[0 := (replicate m 0)[0 := dm ! 0 ! 0]])"
proof -
  have get: "mget dm 0 0 = Inr (dm ! 0 ! 0)" using mget_shape [OF dm n m] .
  let ?fm0 = "replicate n (replicate m (0 :: real))"
  let ?fm1 = "?fm0[0 := (replicate m 0)[0 := dm ! 0 ! 0]]"
  have row0: "?fm0 ! 0 = replicate m 0" using n by simp
  have "mput ?fm0 0 0 (dm ! 0 ! 0) = Inr (?fm0[0 := (?fm0 ! 0)[0 := dm ! 0 ! 0]])"
    using mput_shape(1) [OF shape_zeros n m] .
  then have put: "mput ?fm0 0 0 (dm ! 0 ! 0) = Inr ?fm1"
    using row0 by simp
  show "couplingMatrix_unchecked maxT beyond n m dm []
           = sweepRows_unchecked maxT beyond dm n m 1 0 ?fm1"
    unfolding couplingMatrix_unchecked_def Let_def
    by (simp only: append_Nil get put sum.case)
  have "shape n m (?fm0[0 := (?fm0 ! 0)[0 := dm ! 0 ! 0]])"
    using mput_shape(2) [OF shape_zeros n m] .
  then show "shape n m ?fm1" using row0 by simp
  have entry: "\<And>i j. i < n \<Longrightarrow> j < m \<Longrightarrow>
                 ?fm1 ! i ! j = (if i = 0 \<and> j = 0 then dm ! 0 ! 0 else 0)"
  proof -
    fix i j assume i: "i < n" and j: "j < m"
    have "?fm0[0 := (?fm0 ! 0)[0 := dm ! 0 ! 0]] ! i ! j
            = (if i = 0 \<and> j = 0 then dm ! 0 ! 0 else ?fm0 ! i ! j)"
      using mput_shape(3) [OF shape_zeros n m i j] .
    then show "?fm1 ! i ! j = (if i = 0 \<and> j = 0 then dm ! 0 ! 0 else 0)"
      using row0 i j by simp
  qed
  show "?fm1 ! 0 ! 0 = dm ! 0 ! 0" using entry [OF n m] by simp
  show "0 \<le> S \<Longrightarrow> dm ! 0 ! 0 \<le> S \<Longrightarrow> bounded S n m ?fm1"
    unfolding bounded_def using entry by simp
qed

lemma couplingMatrix_unchecked_returns:
  assumes dm: "shape n m dm" and n: "0 < n" and m: "0 < m"
    and cells: "\<forall>a. 0 < a \<and> a < n \<longrightarrow>
           col a < m \<and> dm ! a ! col a \<noteq> 0 \<and> (\<forall>k < col a. dm ! a ! k = 0)"
    and mono: "\<forall>a. 0 < a \<and> Suc a < n \<longrightarrow> col a \<le> col (Suc a)"
  shows "\<exists>fm. couplingMatrix_unchecked maxT beyond n m dm [] = Some (Inr fm)
           \<and> shape n m fm \<and> fm ! 0 ! 0 = dm ! 0 ! 0"
proof -
  let ?fm1 = "(replicate n (replicate m 0))[0 := (replicate m 0)[0 := dm ! 0 ! 0]]"
  note base = couplingMatrix_unchecked_base [OF dm n m]
  obtain r where run: "sweepRows_unchecked maxT beyond dm n m 1 0 ?fm1 = Some (Inr r)"
    and sh: "shape n m r" and r0: "r ! 0 = ?fm1 ! 0"
    using sweepRows_unchecked_returns [OF dm base(2) cells mono, of 1 0 maxT beyond]
    by auto
  have "r ! 0 ! 0 = dm ! 0 ! 0" using r0 base(3) by simp
  then show ?thesis using base(1) [of maxT beyond] run sh by simp
qed

lemma couplingMatrix_unchecked_terminal:
  assumes dm: "shape n m dm" and n: "2 \<le> n" and m: "0 < m"
    and cells: "\<forall>a. 0 < a \<and> a < n \<longrightarrow>
           col a < m \<and> dm ! a ! col a \<noteq> 0 \<and> (\<forall>k < col a. dm ! a ! k = 0)"
    and mono: "\<forall>a. 0 < a \<and> Suc a < n \<longrightarrow> col a \<le> col (Suc a)"
    and last: "col (n - 1) = m - 1"
    and S0: "0 \<le> maxT - 1" and bd: "bounded (maxT - 1) n m dm"
    and run: "couplingMatrix_unchecked maxT beyond n m dm [] = Some (Inr fm)"
  shows "fm ! (n - 1) ! (m - 1) = couplingRule maxT dm fm (n - 1) (m - 1)"
proof -
  let ?fm1 = "(replicate n (replicate m 0))[0 := (replicate m 0)[0 := dm ! 0 ! 0]]"
  have n0: "0 < n" and n1: "1 < n" using n by simp_all
  note base = couplingMatrix_unchecked_base [OF dm n0 m]
  have "dm ! 0 ! 0 \<le> maxT - 1" using bd n0 m by (simp add: bounded_def)
  then have bf: "bounded (maxT - 1) n m ?fm1" using base(4) [OF S0] by simp
  have one: "(0 :: nat) < 1" by simp
  have start: "0 \<le> col 1" by simp
  obtain r where r: "sweepRows_unchecked maxT beyond dm n m 1 0 ?fm1 = Some (Inr r)"
    and rule: "r ! (n - 1) ! (m - 1) = couplingRule maxT dm r (n - 1) (m - 1)"
    using sweepRows_unchecked_terminal
            [OF dm base(2) bd bf cells mono last one n1 start, of beyond]
    by blast
  have "fm = r" using run r base(1) [of maxT beyond] by simp
  then show ?thesis using rule by simp
qed

lemma couplingMatrix_unchecked_agree:
  assumes dm: "shape n m dm" and n: "0 < n" and m: "0 < m"
    and run: "couplingMatrix_unchecked maxT beyond n m dm [] = Some (Inr r)"
    and run': "couplingMatrix_unchecked maxT beyond' n m dm [] = Some (Inr r')"
  shows "r = r'"
proof -
  let ?fm1 = "(replicate n (replicate m 0))[0 := (replicate m 0)[0 := dm ! 0 ! 0]]"
  note base = couplingMatrix_unchecked_base [OF dm n m]
  have a: "sweepRows_unchecked maxT beyond dm n m 1 0 ?fm1 = Some (Inr r)"
    using run base(1) [of maxT beyond] by simp
  have b: "sweepRows_unchecked maxT beyond' dm n m 1 0 ?fm1 = Some (Inr r')"
    using run' base(1) [of maxT beyond'] by simp
  show ?thesis
    by (rule sweepRows_unchecked_agree [OF dm base(2) a b]) simp
qed


lemma frechetDistance_unchecked_swapped:
  assumes "swapIfShorter l1 l2 = (L, S)"
  shows "computeDistanceMatrix dInit l1 l2 dm0 = computeDistanceMatrix dInit L S dm0"
    and "computeFrechetMatrix_unchecked maxT dInit beyond l1 l2 fm0
           = computeFrechetMatrix_unchecked maxT dInit beyond L S fm0"
    and "frechetDistance_unchecked maxT dInit beyond l1 l2
           = frechetDistance_unchecked maxT dInit beyond L S"
proof -
  have "swapIfShorter L S = (L, S)"
    using assms by (auto simp: swapIfShorter_def split: if_splits)
  then show a: "computeDistanceMatrix dInit l1 l2 dm0 = computeDistanceMatrix dInit L S dm0"
    for dm0
    using assms by (simp add: computeDistanceMatrix_def)
  then show b: "computeFrechetMatrix_unchecked maxT dInit beyond l1 l2 fm0
           = computeFrechetMatrix_unchecked maxT dInit beyond L S fm0" for fm0
    by (simp add: computeFrechetMatrix_unchecked_def)
  then show "frechetDistance_unchecked maxT dInit beyond l1 l2
           = frechetDistance_unchecked maxT dInit beyond L S"
    by (simp add: frechetDistance_unchecked_def)
qed

lemma frechetDistance_unchecked_ordered:
  assumes lenA: "length A = n" and lenB: "length B = m" and m1: "1 \<le> m" and mn: "m \<le> n"
    and dimA: "uniformDim k A" and dimB: "uniformDim k B"
    and distinct: "\<forall>a. 0 < a \<and> a < n \<longrightarrow> A ! a \<noteq> B ! coreColumn n m a"
  shows "\<exists>dm fm.
           computeDistanceMatrix dInit A B []
             = ((A, B),
                Some (Inr (Max ((\<lambda>i. euclid (A ! i) (B ! coreColumn n m i)) ` {..<n}), dm)))
         \<and> shape n m dm \<and> shape n m fm
         \<and> computeFrechetMatrix_unchecked maxT dInit beyond A B [] = ((A, B), Some (Inr fm))
         \<and> frechetDistance_unchecked maxT dInit beyond A B
             = ((A, B), Some (Inr (fm ! (n - 1) ! (m - 1))))
         \<and> fm ! 0 ! 0 = euclid (A ! 0) (B ! 0)
         \<and> ((\<forall>a < n. euclid (A ! a) (B ! coreColumn n m a) \<le> maxT - 1) \<and> 2 \<le> n
              \<longrightarrow> fm ! (n - 1) ! (m - 1) = couplingRule maxT dm fm (n - 1) (m - 1))"
proof -
  let ?diagMax = "Max ((\<lambda>i. euclid (A ! i) (B ! coreColumn n m i)) ` {..<n})"
  have n0: "0 < n" and m0: "0 < m" using m1 mn by simp_all
  obtain dm where
    band: "bandedMatrix dInit A B [] = Some (Inr (?diagMax, dm))"
    and dm: "shape n m dm"
    and first: "dm ! 0 ! 0 = euclid (A ! 0) (B ! 0)"
    and cols: "\<forall>a < n. coreColumn n m a < m
                \<and> dm ! a ! coreColumn n m a = euclid (A ! a) (B ! coreColumn n m a)
                \<and> (A ! a \<noteq> B ! coreColumn n m a \<longrightarrow> dm ! a ! coreColumn n m a \<noteq> 0)
                \<and> (\<forall>k < coreColumn n m a. dm ! a ! k = 0)"
    and bnd: "\<forall>S. (\<forall>a < n. euclid (A ! a) (B ! coreColumn n m a) \<le> S)
                \<longrightarrow> 0 \<le> S \<and> bounded S n m dm"
    using bandedMatrix_columns [OF lenA lenB m1 mn dimA dimB, of dInit] by blast
  have cells: "\<forall>a. 0 < a \<and> a < n \<longrightarrow>
           coreColumn n m a < m \<and> dm ! a ! coreColumn n m a \<noteq> 0
           \<and> (\<forall>k < coreColumn n m a. dm ! a ! k = 0)"
  proof (intro allI impI)
    fix a assume a: "0 < a \<and> a < n"
    then have "a < n" by simp
    from cols [rule_format, OF this] distinct a
    show "coreColumn n m a < m \<and> dm ! a ! coreColumn n m a \<noteq> 0
           \<and> (\<forall>k < coreColumn n m a. dm ! a ! k = 0)"
      by blast
  qed
  have mono: "\<forall>a. 0 < a \<and> Suc a < n \<longrightarrow> coreColumn n m a \<le> coreColumn n m (Suc a)"
    using coreColumn_mono [OF m1 mn] by simp
  obtain fm where
    cm: "couplingMatrix_unchecked maxT beyond n m dm [] = Some (Inr fm)"
    and fm: "shape n m fm" and fm0: "fm ! 0 ! 0 = dm ! 0 ! 0"
    using couplingMatrix_unchecked_returns [OF dm n0 m0 cells mono] by blast
  have sw: "swapIfShorter A B = (A, B)"
    using mn lenA lenB by (simp add: swapIfShorter_def)
  have cdm: "computeDistanceMatrix dInit A B [] = ((A, B), Some (Inr (?diagMax, dm)))"
    using band sw by (simp add: computeDistanceMatrix_def)
  have cfm: "computeFrechetMatrix_unchecked maxT dInit beyond A B [] = ((A, B), Some (Inr fm))"
    using cdm cm lenA lenB by (simp add: computeFrechetMatrix_unchecked_def)
  have ne: "A \<noteq> []" "B \<noteq> []" using n0 m0 lenA lenB by auto
  have "mget fm (n - 1) (m - 1) = Inr (fm ! (n - 1) ! (m - 1))"
    using mget_shape [OF fm, of "n - 1" "m - 1"] n0 m0 by simp
  then have fd: "frechetDistance_unchecked maxT dInit beyond A B
             = ((A, B), Some (Inr (fm ! (n - 1) ! (m - 1))))"
    using cfm ne lenA lenB by (simp add: frechetDistance_unchecked_def)
  have rule: "(\<forall>a < n. euclid (A ! a) (B ! coreColumn n m a) \<le> maxT - 1) \<and> 2 \<le> n
              \<longrightarrow> fm ! (n - 1) ! (m - 1) = couplingRule maxT dm fm (n - 1) (m - 1)"
  proof
    assume h: "(\<forall>a < n. euclid (A ! a) (B ! coreColumn n m a) \<le> maxT - 1) \<and> 2 \<le> n"
    then have "\<forall>a < n. euclid (A ! a) (B ! coreColumn n m a) \<le> maxT - 1" by simp
    with bnd have "0 \<le> maxT - 1 \<and> bounded (maxT - 1) n m dm" by blast
    then have S0: "0 \<le> maxT - 1" and bd: "bounded (maxT - 1) n m dm" by blast+
    have n2: "2 \<le> n" using h by simp
    have last: "coreColumn n m (n - 1) = m - 1" using coreColumn_last [OF m1 mn] .
    show "fm ! (n - 1) ! (m - 1) = couplingRule maxT dm fm (n - 1) (m - 1)"
      using couplingMatrix_unchecked_terminal [OF dm n2 m0 cells mono last S0 bd cm] .
  qed
  show ?thesis
    using cdm dm fm cfm fd fm0 first rule by (intro exI [of _ dm] exI [of _ fm]) simp
qed

lemma frechetDistance_unchecked_scalar:
  assumes "snd (frechetDistance_unchecked maxT dInit beyond l1 l2) = Some (Inr v)"
    and "swapIfShorter l1 l2 = (L, S)"
  shows "L \<noteq> [] \<and> S \<noteq> []
     \<and> (\<exists>diagMax dm fm. bandedMatrix dInit L S [] = Some (Inr (diagMax, dm))
           \<and> couplingMatrix_unchecked maxT beyond (length L) (length S) dm [] = Some (Inr fm)
           \<and> mget fm (length L - 1) (length S - 1) = Inr v)"
  using assms
  by (auto simp: frechetDistance_unchecked_def computeFrechetMatrix_unchecked_def
        computeDistanceMatrix_def split: prod.splits option.splits sum.splits if_splits)

lemma frechetDistance_unchecked_agree:
  assumes dimA: "uniformDim k A" and dimB: "uniformDim k B"
    and run: "snd (frechetDistance_unchecked maxT dInit beyond A B) = Some (Inr v)"
    and run': "snd (frechetDistance_unchecked maxT dInit' beyond' B A) = Some (Inr v')"
  shows "v = v'"
proof -
  obtain L S where sw: "swapIfShorter A B = (L, S)" by (cases "swapIfShorter A B")
  obtain L' S' where sw': "swapIfShorter B A = (L', S')" by (cases "swapIfShorter B A")
  obtain diagMax dm fm where ne: "L \<noteq> []" "S \<noteq> []"
    and band: "bandedMatrix dInit L S [] = Some (Inr (diagMax, dm))"
    and cm: "couplingMatrix_unchecked maxT beyond (length L) (length S) dm [] = Some (Inr fm)"
    and get: "mget fm (length L - 1) (length S - 1) = Inr v"
    using frechetDistance_unchecked_scalar [OF run sw] by blast
  obtain diagMax' dm' fm' where
    band': "bandedMatrix dInit' L' S' [] = Some (Inr (diagMax', dm'))"
    and cm': "couplingMatrix_unchecked maxT beyond' (length L') (length S') dm' []
                = Some (Inr fm')"
    and get': "mget fm' (length L' - 1) (length S' - 1) = Inr v'"
    using frechetDistance_unchecked_scalar [OF run' sw'] by blast
  have mn: "length S \<le> length L"
    using sw by (auto simp: swapIfShorter_def split: if_splits)
  have m1: "1 \<le> length S" using ne by (simp add: Suc_le_eq)
  have dims: "uniformDim k L" "uniformDim k S"
    using sw dimA dimB by (auto simp: swapIfShorter_def split: if_splits)
  have lens: "length L' = length L \<and> length S' = length S"
    using sw sw' by (auto simp: swapIfShorter_def split: if_splits)
  have same: "bandedMatrix dInit L S [] = bandedMatrix dInit' L' S' []"
  proof (cases "length A = length B")
    case True
    then have "L = A" "S = B" "L' = B" "S' = A"
      using sw sw' by (auto simp: swapIfShorter_def)
    moreover have "bandedMatrix dInit A B [] = bandedMatrix dInit B A []"
      using bandedMatrix_square_sym [OF refl True [symmetric] dimA dimB] .
    moreover have "bandedMatrix dInit B A [] = bandedMatrix dInit' B A []"
      using uniformDim_fits [OF dimB dimA] True by (intro bandedMatrix_dInit) simp_all
    ultimately show ?thesis by simp
  next
    case False
    then have "L' = L" "S' = S"
      using sw sw' by (auto simp: swapIfShorter_def split: if_splits)
    moreover have "bandedMatrix dInit L S [] = bandedMatrix dInit' L S []"
      using uniformDim_fits [OF dims] mn by (intro bandedMatrix_dInit) simp_all
    ultimately show ?thesis by simp
  qed
  then have dm': "dm' = dm" using band band' by simp
  obtain dm0 where "bandedMatrix dInit L S [] = Some (Inr (Max ((\<lambda>i. euclid (L ! i)
                      (S ! coreColumn (length L) (length S) i)) ` {..<length L}), dm0))"
    and "shape (length L) (length S) dm0"
    using bandedMatrix_closed [OF refl refl m1 mn uniformDim_fits [OF dims], of dInit]
    by blast
  then have sh: "shape (length L) (length S) dm" using band by simp
  have n0: "0 < length L" and m0: "0 < length S" using ne by simp_all
  have "fm = fm'"
    using couplingMatrix_unchecked_agree [OF sh n0 m0 cm] cm' dm' lens by simp
  then show ?thesis using get get' lens by simp
qed

lemma frechetDistance_unchecked_returns:
  assumes dimA: "uniformDim k l1" and dimB: "uniformDim k l2"
    and ne: "l1 \<noteq> []" "l2 \<noteq> []"
    and sw: "swapIfShorter l1 l2 = (L, S)"
    and distinct: "\<forall>a. 0 < a \<and> a < length L
                     \<longrightarrow> L ! a \<noteq> S ! coreColumn (length L) (length S) a"
  shows "\<exists>dm fm.
           computeDistanceMatrix dInit l1 l2 []
             = ((L, S),
                Some (Inr (Max ((\<lambda>i. euclid (L ! i) (S ! coreColumn (length L) (length S) i))
                                  ` {..<length L}), dm)))
         \<and> shape (length L) (length S) dm \<and> shape (length L) (length S) fm
         \<and> computeFrechetMatrix_unchecked maxT dInit beyond l1 l2 [] = ((L, S), Some (Inr fm))
         \<and> frechetDistance_unchecked maxT dInit beyond l1 l2
             = ((L, S), Some (Inr (fm ! (length L - 1) ! (length S - 1))))
         \<and> fm ! 0 ! 0 = euclid (L ! 0) (S ! 0)
         \<and> ((\<forall>a < length L. euclid (L ! a) (S ! coreColumn (length L) (length S) a)
                 \<le> maxT - 1) \<and> 2 \<le> length L
              \<longrightarrow> fm ! (length L - 1) ! (length S - 1)
                    = couplingRule maxT dm fm (length L - 1) (length S - 1))"
proof -
  have LS: "(L = l1 \<and> S = l2) \<or> (L = l2 \<and> S = l1)"
    using sw by (auto simp: swapIfShorter_def split: if_splits)
  have mn: "length S \<le> length L"
    using sw by (auto simp: swapIfShorter_def split: if_splits)
  have m1: "1 \<le> length S" using LS ne by (auto simp: Suc_le_eq)
  have dims: "uniformDim k L" "uniformDim k S" using LS dimA dimB by auto
  show ?thesis
    using frechetDistance_unchecked_ordered
            [OF refl refl m1 mn dims distinct, of dInit maxT beyond]
    unfolding frechetDistance_unchecked_swapped [OF sw] .
qed

lemmas run_unchecked_simps = frechetDistance_unchecked_def computeFrechetMatrix_unchecked_def
  couplingMatrix_unchecked_def sweepRows_unchecked.simps sweepRow_unchecked.simps
  skipUnset_unchecked.simps mread_def

text \<open>
  For \<open>A = [(0,0), (1,0), (2,0)]\<close> compared with itself, where the distance matrix is all
  zeros, the program with unchecked subscripts returns 0 when the memory behind the rows
  holds a non-zero value: the cursor leaves rows 1 and 2, no cell is swept, and the
  terminal cell returned is the zero that the matrix was filled with.
\<close>

lemma identical_trajectories_unchecked:
  "snd (frechetDistance_unchecked maxT dInit (\<lambda>fm i j. 1)
          [[0, 0], [1, 0], [2, 0]] [[0, 0], [1, 0], [2, 0]]) = Some (Inr 0)"
  by (simp add: run_simps run_unchecked_simps)

lemma maxDouble_sentinel: "2 \<le> maxDouble - 1"
  by (simp add: maxDouble_def)

lemma coreColumn_2_2:
  "coreColumn (Suc (Suc 0)) (Suc (Suc 0)) (Suc 0) = Suc 0"
  by (simp add: coreColumn_def)

lemma shape_2_2: "shape 2 2 [[a, b], [c, d]]"
  by (simp add: shape_def less_Suc_eq numeral_2_eq_2)

text \<open>
  C5. Let all points of \<open>A\<close> and \<open>B\<close> have one dimension, and take the program with
  unchecked subscripts, whatever the uninitialised locals and the memory behind the rows
  hold in the two calls. Whenever \<open>frechetDistance(A, B)\<close> and \<open>frechetDistance(B, A)\<close>
  both return a scalar, the two scalars are equal. Both calls do return, and the same
  scalar, when the trajectories are non-empty and, \<open>(L, S)\<close> being the pair after the
  swap, no point of \<open>L\<close> after its first coincides with its companion on the core
  diagonal, so that every row of the distance matrix has a set cell. When the lengths
  differ both calls work on the pair with the longer trajectory first; when they are
  equal, the core diagonal is the main diagonal and the distance of two points does not
  depend on their order. With checked subscripts the two calls have the same outcome as
  well, a failure as soon as a trajectory has two points.
\<close>

theorem C5_frechet_swap_invariant:
  assumes "uniformDim k A" and "uniformDim k B"
  shows "(snd (frechetDistance_unchecked maxT dInit beyond A B) = Some (Inr v)
            \<and> snd (frechetDistance_unchecked maxT dInit' beyond' B A) = Some (Inr v')
          \<longrightarrow> v = v')
     \<and> (A \<noteq> [] \<and> B \<noteq> [] \<and> swapIfShorter A B = (L, S)
          \<and> (\<forall>a. 0 < a \<and> a < length L
                \<longrightarrow> L ! a \<noteq> S ! coreColumn (length L) (length S) a)
        \<longrightarrow> (\<exists>d. snd (frechetDistance_unchecked maxT dInit beyond A B) = Some (Inr d)
              \<and> snd (frechetDistance_unchecked maxT dInit' beyond' B A) = Some (Inr d)))
     \<and> snd (frechetDistance maxT dInit A B) = snd (frechetDistance maxT dInit' B A)"
proof (intro conjI impI)
  assume "snd (frechetDistance_unchecked maxT dInit beyond A B) = Some (Inr v)
            \<and> snd (frechetDistance_unchecked maxT dInit' beyond' B A) = Some (Inr v')"
  then show "v = v'"
    using frechetDistance_unchecked_agree [OF assms] by blast
next
  assume h: "A \<noteq> [] \<and> B \<noteq> [] \<and> swapIfShorter A B = (L, S)
          \<and> (\<forall>a. 0 < a \<and> a < length L
                \<longrightarrow> L ! a \<noteq> S ! coreColumn (length L) (length S) a)"
  then have ne: "A \<noteq> []" "B \<noteq> []" and sw: "swapIfShorter A B = (L, S)"
    and distinct: "\<forall>a. 0 < a \<and> a < length L
                    \<longrightarrow> L ! a \<noteq> S ! coreColumn (length L) (length S) a"
    by simp_all
  obtain d where run: "snd (frechetDistance_unchecked maxT dInit beyond A B) = Some (Inr d)"
    using frechetDistance_unchecked_returns [OF assms ne sw distinct, of dInit maxT beyond]
    by auto
  obtain L' S' where sw': "swapIfShorter B A = (L', S')" by (cases "swapIfShorter B A")
  have distinct': "\<forall>a. 0 < a \<and> a < length L'
                    \<longrightarrow> L' ! a \<noteq> S' ! coreColumn (length L') (length S') a"
  proof (cases "length A = length B")
    case True
    then have LS: "L = A" "S = B" "L' = B" "S' = A"
      using sw sw' by (auto simp: swapIfShorter_def)
    show ?thesis
    proof (intro allI impI)
      fix a assume a: "0 < a \<and> a < length L'"
      then have "a < length A" using LS True by simp
      then have "coreColumn (length A) (length A) a = a" by (rule coreColumn_square)
      then show "L' ! a \<noteq> S' ! coreColumn (length L') (length S') a"
        using distinct a LS True by auto
    qed
  next
    case False
    then have "L' = L" "S' = S"
      using sw sw' by (auto simp: swapIfShorter_def split: if_splits)
    then show ?thesis using distinct by simp
  qed
  obtain d' where
    run': "snd (frechetDistance_unchecked maxT dInit' beyond' B A) = Some (Inr d')"
    using frechetDistance_unchecked_returns
            [OF assms(2,1) ne(2,1) sw' distinct', of dInit' maxT beyond']
    by auto
  have "d = d'" using frechetDistance_unchecked_agree [OF assms run run'] .
  then show "\<exists>d. snd (frechetDistance_unchecked maxT dInit beyond A B) = Some (Inr d)
              \<and> snd (frechetDistance_unchecked maxT dInit' beyond' B A) = Some (Inr d)"
    using run run' by simp
next
  show "snd (frechetDistance maxT dInit A B) = snd (frechetDistance maxT dInit' B A)"
    using frechetDistance_swap_outcome [OF assms] .
qed

theorem C5_frechet_swap_invariant_witness:
  "uniformDim 1 [[1]] \<and> uniformDim 1 [[0], [3]] \<and> uniformDim 1 [[1], [1]]
   \<and> swapIfShorter [[1]] [[0], [3]] = ([[0], [3]], [[1]])
   \<and> snd (frechetDistance_unchecked maxDouble (\<lambda>i. 0) (\<lambda>fm i j. 0) [[1]] [[0], [3]])
       = Some (Inr 2)
   \<and> snd (frechetDistance_unchecked maxDouble (\<lambda>i. 1) (\<lambda>fm i j. 7) [[0], [3]] [[1]])
       = Some (Inr 2)
   \<and> swapIfShorter [[0], [3]] [[1], [1]] = ([[0], [3]], [[1], [1]])
   \<and> snd (frechetDistance_unchecked maxDouble (\<lambda>i. 0) (\<lambda>fm i j. 0) [[0], [3]] [[1], [1]])
       = Some (Inr 2)
   \<and> snd (frechetDistance_unchecked maxDouble (\<lambda>i. 1) (\<lambda>fm i j. 7) [[1], [1]] [[0], [3]])
       = Some (Inr 2)"
proof -
  have d1: "uniformDim 1 [[1]]" and d2: "uniformDim 1 [[0], [3]]"
    and d3: "uniformDim 1 [[1], [1]]"
    by (simp_all add: uniformDim_def)
  have sw: "swapIfShorter [[1]] [[0], [3]] = ([[0], [3]], [[1]])"
    and sw2: "swapIfShorter [[0], [3]] [[1], [1]] = ([[0], [3]], [[1], [1]])"
    by (simp_all add: swapIfShorter_def)
  have run: "snd (frechetDistance_unchecked maxDouble (\<lambda>i. 0) (\<lambda>fm i j. 0) [[1]] [[0], [3]])
               = Some (Inr 2)"
    using maxDouble_large by (simp add: run_simps run_unchecked_simps)
  have run2: "snd (frechetDistance_unchecked maxDouble (\<lambda>i. 0) (\<lambda>fm i j. 0)
                     [[0], [3]] [[1], [1]]) = Some (Inr 2)"
    using maxDouble_large by (simp add: run_simps run_unchecked_simps)
  have distinct: "\<forall>a. 0 < a \<and> a < length [[0], [3 :: real]]
        \<longrightarrow> [[0], [3 :: real]] ! a
              \<noteq> [[1]] ! coreColumn (length [[0], [3 :: real]]) (length [[1 :: real]]) a"
    by (auto simp: less_Suc_eq coreColumn_2_1)
  have distinct2: "\<forall>a. 0 < a \<and> a < length [[0], [3 :: real]]
        \<longrightarrow> [[0], [3 :: real]] ! a
              \<noteq> [[1], [1]] ! coreColumn (length [[0], [3 :: real]])
                                 (length [[1], [1 :: real]]) a"
    by (auto simp: less_Suc_eq coreColumn_2_2)
  have "\<exists>d. snd (frechetDistance_unchecked maxDouble (\<lambda>i. 0) (\<lambda>fm i j. 0) [[1]] [[0], [3]])
               = Some (Inr d)
           \<and> snd (frechetDistance_unchecked maxDouble (\<lambda>i. 1) (\<lambda>fm i j. 7) [[0], [3]] [[1]])
               = Some (Inr d)"
    using C5_frechet_swap_invariant [OF d1 d2, of maxDouble "\<lambda>i. 0" "\<lambda>fm i j. 0" _
            "\<lambda>i. 1" "\<lambda>fm i j. 7" _ "[[0], [3]]" "[[1]]"] sw distinct
    by blast
  then have other: "snd (frechetDistance_unchecked maxDouble (\<lambda>i. 1) (\<lambda>fm i j. 7)
                          [[0], [3]] [[1]]) = Some (Inr 2)"
    using run by auto
  have "\<exists>d. snd (frechetDistance_unchecked maxDouble (\<lambda>i. 0) (\<lambda>fm i j. 0)
                    [[0], [3]] [[1], [1]]) = Some (Inr d)
           \<and> snd (frechetDistance_unchecked maxDouble (\<lambda>i. 1) (\<lambda>fm i j. 7)
                    [[1], [1]] [[0], [3]]) = Some (Inr d)"
    using C5_frechet_swap_invariant [OF d2 d3, of maxDouble "\<lambda>i. 0" "\<lambda>fm i j. 0" _
            "\<lambda>i. 1" "\<lambda>fm i j. 7" _ "[[0], [3]]" "[[1], [1]]"] sw2 distinct2
    by blast
  then have other2: "snd (frechetDistance_unchecked maxDouble (\<lambda>i. 1) (\<lambda>fm i j. 7)
                           [[1], [1]] [[0], [3]]) = Some (Inr 2)"
    using run2 by auto
  show ?thesis
    using d1 d2 d3 sw sw2 run other run2 other2 by (intro conjI)
qed


text \<open>
  C2, as the code has it. \<open>computeFrechetMatrix\<close> starts its sweep from the zero matrix
  with \<open>coupling(0,0) = distance(0,0)\<close>. At each cell \<open>(i, j)\<close> it visits, the value it
  computes is \<open>max(distance(i,j), minimum)\<close>, where \<open>minimum\<close> is the least coupling of
  the predecessors \<open>(i-1,j-1)\<close>, \<open>(i-1,j)\<close>, \<open>(i,j-1)\<close> whose distance entry is
  non-zero, and the sentinel \<open>max() - 1\<close> when there is none (the couplings of the
  predecessors not exceeding the sentinel); with no set predecessor the value is the
  sentinel itself, not the distance. A visited cell with a non-zero distance has this
  value stored and the sweep goes on with the next column, with checked and with
  unchecked subscripts alike. With unchecked subscripts, for non-empty trajectories of
  one dimension, \<open>(L, S)\<close> being the pair after the swap and no point of \<open>L\<close> after
  its first coinciding with its companion on the core diagonal, \<open>frechetDistance\<close>
  returns, and the scalar it returns is the coupling of the terminal cell
  \<open>(n - 1, m - 1)\<close> of the matrix that \<open>computeFrechetMatrix\<close> leaves, for the sizes
  \<open>n\<close> and \<open>m\<close> of \<open>L\<close> and \<open>S\<close>. In that matrix \<open>coupling(0,0)\<close> is the distance of the
  first points, and for \<open>n \<ge> 2\<close> and core distances that do not exceed the sentinel the
  terminal coupling is the value of the rule above. (Not every set cell is visited: lemma
  \<open>sweep_leaves_set_cell\<close>. With checked subscripts the test of the sweep fails in the
  last row: lemma \<open>frechetDistance_fails\<close>.)
\<close>

theorem C2_coupling_recurrence:
  assumes "shape n m dm" and "shape n m fm" and "i < n" and "j < m"
    and "\<forall>c \<in> set (predCouplings dm fm i j). c \<le> maxT - 1"
  shows "couplingMatrix maxT n m dm []
           = sweepRows maxT dm n m 1 0
               ((replicate n (replicate m 0))[0 := (replicate m 0)[0 := dm ! 0 ! 0]])
     \<and> coupleCell maxT dm fm i j = Inr (couplingRule maxT dm fm i j)
     \<and> (predCouplings dm fm i j = [] \<and> dm ! i ! j \<le> maxT - 1
          \<longrightarrow> coupleCell maxT dm fm i j = Inr (maxT - 1))
     \<and> (dm ! i ! j \<noteq> 0
          \<longrightarrow> sweepRow maxT dm m i j fm
              = sweepRow maxT dm m i (Suc j)
                  (fm[i := (fm ! i)[j := couplingRule maxT dm fm i j]]))
     \<and> couplingMatrix_unchecked maxT beyond n m dm []
           = sweepRows_unchecked maxT beyond dm n m 1 0
               ((replicate n (replicate m 0))[0 := (replicate m 0)[0 := dm ! 0 ! 0]])
     \<and> (dm ! i ! j \<noteq> 0
          \<longrightarrow> sweepRow_unchecked maxT beyond dm m i j fm
              = sweepRow_unchecked maxT beyond dm m i (Suc j)
                  (fm[i := (fm ! i)[j := couplingRule maxT dm fm i j]]))
     \<and> (uniformDim k l1 \<and> uniformDim k l2 \<and> l1 \<noteq> [] \<and> l2 \<noteq> []
          \<and> swapIfShorter l1 l2 = (L, S)
          \<and> (\<forall>a. 0 < a \<and> a < length L
                \<longrightarrow> L ! a \<noteq> S ! coreColumn (length L) (length S) a)
        \<longrightarrow> (\<exists>dm' fm'.
               computeDistanceMatrix dInit l1 l2 []
                 = ((L, S),
                    Some (Inr (Max ((\<lambda>a. euclid (L ! a)
                                            (S ! coreColumn (length L) (length S) a))
                                      ` {..<length L}), dm')))
             \<and> computeFrechetMatrix_unchecked maxT dInit beyond l1 l2 []
                 = ((L, S), Some (Inr fm'))
             \<and> frechetDistance_unchecked maxT dInit beyond l1 l2
                 = ((L, S), Some (Inr (fm' ! (length L - 1) ! (length S - 1))))
             \<and> fm' ! 0 ! 0 = euclid (L ! 0) (S ! 0)
             \<and> ((\<forall>a < length L. euclid (L ! a) (S ! coreColumn (length L) (length S) a)
                     \<le> maxT - 1) \<and> 2 \<le> length L
                  \<longrightarrow> fm' ! (length L - 1) ! (length S - 1)
                        = couplingRule maxT dm' fm' (length L - 1) (length S - 1))))"
proof (intro conjI impI)
  have n: "0 < n" and m: "0 < m" using assms(3,4) by simp_all
  show "couplingMatrix maxT n m dm []
           = sweepRows maxT dm n m 1 0
               ((replicate n (replicate m 0))[0 := (replicate m 0)[0 := dm ! 0 ! 0]])"
    using couplingMatrix_base [OF assms(1) n m] .
  show "couplingMatrix_unchecked maxT beyond n m dm []
           = sweepRows_unchecked maxT beyond dm n m 1 0
               ((replicate n (replicate m 0))[0 := (replicate m 0)[0 := dm ! 0 ! 0]])"
    using couplingMatrix_unchecked_base(1) [OF assms(1) n m] .
next
  show "coupleCell maxT dm fm i j = Inr (couplingRule maxT dm fm i j)"
    using coupleCell_rule [OF assms] .
next
  assume "predCouplings dm fm i j = [] \<and> dm ! i ! j \<le> maxT - 1"
  then have "couplingRule maxT dm fm i j = maxT - 1"
    by (simp add: couplingRule_def)
  then show "coupleCell maxT dm fm i j = Inr (maxT - 1)"
    using coupleCell_rule [OF assms] by simp
next
  assume "dm ! i ! j \<noteq> 0"
  then show "sweepRow maxT dm m i j fm
              = sweepRow maxT dm m i (Suc j)
                  (fm[i := (fm ! i)[j := couplingRule maxT dm fm i j]])"
    using sweepRow_step [OF assms] by simp
next
  assume "dm ! i ! j \<noteq> 0"
  then show "sweepRow_unchecked maxT beyond dm m i j fm
              = sweepRow_unchecked maxT beyond dm m i (Suc j)
                  (fm[i := (fm ! i)[j := couplingRule maxT dm fm i j]])"
    using sweepRow_unchecked_step [OF assms] by simp
next
  assume h: "uniformDim k l1 \<and> uniformDim k l2 \<and> l1 \<noteq> [] \<and> l2 \<noteq> []
          \<and> swapIfShorter l1 l2 = (L, S)
          \<and> (\<forall>a. 0 < a \<and> a < length L
                \<longrightarrow> L ! a \<noteq> S ! coreColumn (length L) (length S) a)"
  then have dims: "uniformDim k l1" "uniformDim k l2" and ne: "l1 \<noteq> []" "l2 \<noteq> []"
    and sw: "swapIfShorter l1 l2 = (L, S)"
    and distinct: "\<forall>a. 0 < a \<and> a < length L
                    \<longrightarrow> L ! a \<noteq> S ! coreColumn (length L) (length S) a"
    by simp_all
  obtain dm' fm' where
    a: "computeDistanceMatrix dInit l1 l2 []
                 = ((L, S),
                    Some (Inr (Max ((\<lambda>a. euclid (L ! a)
                                            (S ! coreColumn (length L) (length S) a))
                                      ` {..<length L}), dm')))"
    and b: "computeFrechetMatrix_unchecked maxT dInit beyond l1 l2 []
                 = ((L, S), Some (Inr fm'))"
    and c: "frechetDistance_unchecked maxT dInit beyond l1 l2
                 = ((L, S), Some (Inr (fm' ! (length L - 1) ! (length S - 1))))"
    and d: "fm' ! 0 ! 0 = euclid (L ! 0) (S ! 0)"
    and e: "(\<forall>a < length L. euclid (L ! a) (S ! coreColumn (length L) (length S) a)
                     \<le> maxT - 1) \<and> 2 \<le> length L
                  \<longrightarrow> fm' ! (length L - 1) ! (length S - 1)
                        = couplingRule maxT dm' fm' (length L - 1) (length S - 1)"
    using frechetDistance_unchecked_returns [OF dims ne sw distinct, of dInit maxT beyond]
    by blast
  show "\<exists>dm' fm'.
               computeDistanceMatrix dInit l1 l2 []
                 = ((L, S),
                    Some (Inr (Max ((\<lambda>a. euclid (L ! a)
                                            (S ! coreColumn (length L) (length S) a))
                                      ` {..<length L}), dm')))
             \<and> computeFrechetMatrix_unchecked maxT dInit beyond l1 l2 []
                 = ((L, S), Some (Inr fm'))
             \<and> frechetDistance_unchecked maxT dInit beyond l1 l2
                 = ((L, S), Some (Inr (fm' ! (length L - 1) ! (length S - 1))))
             \<and> fm' ! 0 ! 0 = euclid (L ! 0) (S ! 0)
             \<and> ((\<forall>a < length L. euclid (L ! a) (S ! coreColumn (length L) (length S) a)
                     \<le> maxT - 1) \<and> 2 \<le> length L
                  \<longrightarrow> fm' ! (length L - 1) ! (length S - 1)
                        = couplingRule maxT dm' fm' (length L - 1) (length S - 1))"
    using a b c d e by (intro exI [of _ dm'] exI [of _ fm'] conjI)
qed

theorem C2_coupling_recurrence_witness:
  "shape 2 2 [[1, 0], [0, 1]] \<and> shape 2 2 [[1, 0], [0, 0]]
   \<and> couplingRule maxDouble [[1, 0], [0, 1]] [[1, 0], [0, 0]] 1 1 = 1
   \<and> coupleCell maxDouble [[1, 0], [0, 1]] [[1, 0], [0, 0]] 1 1 = Inr 1
   \<and> sweepRow maxDouble [[1, 0], [0, 1]] 2 1 1 [[1, 0], [0, 0]]
       = sweepRow maxDouble [[1, 0], [0, 1]] 2 1 2 [[1, 0], [0, 1]]
   \<and> sweepRow_unchecked maxDouble (\<lambda>fm i j. 0) [[1, 0], [0, 1]] 2 1 1 [[1, 0], [0, 0]]
       = sweepRow_unchecked maxDouble (\<lambda>fm i j. 0) [[1, 0], [0, 1]] 2 1 2 [[1, 0], [0, 1]]
   \<and> couplingMatrix maxDouble 2 2 [[1, 0], [0, 1]] []
       = sweepRows maxDouble [[1, 0], [0, 1]] 2 2 1 0 [[1, 0], [0, 0]]
   \<and> couplingMatrix_unchecked maxDouble (\<lambda>fm i j. 0) 2 2 [[1, 0], [0, 1]] []
       = sweepRows_unchecked maxDouble (\<lambda>fm i j. 0) [[1, 0], [0, 1]] 2 2 1 0 [[1, 0], [0, 0]]
   \<and> coupleCell maxDouble [[0, 0], [0, 1]] [[0, 0], [0, 0]] 1 1 = Inr (maxDouble - 1)
   \<and> swapIfShorter [[1]] [[0], [3]] = ([[0], [3]], [[1]])
   \<and> computeDistanceMatrix (\<lambda>i. 0) [[1]] [[0], [3]] []
       = (([[0], [3]], [[1]]), Some (Inr (2, [[1], [2]])))
   \<and> computeFrechetMatrix_unchecked maxDouble (\<lambda>i. 0) (\<lambda>fm i j. 0) [[1]] [[0], [3]] []
       = (([[0], [3]], [[1]]), Some (Inr [[1], [2]]))
   \<and> frechetDistance_unchecked maxDouble (\<lambda>i. 0) (\<lambda>fm i j. 0) [[1]] [[0], [3]]
       = (([[0], [3]], [[1]]), Some (Inr 2))
   \<and> couplingRule maxDouble [[1], [2]] [[1], [2]] 1 0 = 2"
proof -
  have preds: "predCouplings [[1, 0], [0, 1]] [[1, 0], [0, 0]] (Suc 0) (Suc 0) = [1]"
    by (simp add: predCouplings_def)
  have bound: "\<forall>c \<in> set (predCouplings [[1, 0], [0, 1]] [[1, 0], [0, 0]] 1 1). c \<le> maxDouble - 1"
    using maxDouble_large by (simp add: preds)
  have rule: "couplingRule maxDouble [[1, 0], [0, 1]] [[1, 0], [0, 0]] 1 1 = 1"
    by (simp add: couplingRule_def preds)
  have preds0: "predCouplings [[0, 0], [0, 1]] [[0, 0], [0, 0]] (Suc 0) (Suc 0) = []"
    by (simp add: predCouplings_def)
  have bound0: "\<forall>c \<in> set (predCouplings [[0, 0], [0, 1]] [[0, 0], [0, 0]] 1 1). c \<le> maxDouble - 1"
    by (simp add: preds0)
  have rule0: "couplingRule maxDouble [[0, 0], [0, 1]] [[0, 0], [0, 0]] (Suc 0) (Suc 0)
                 = maxDouble - 1"
    using maxDouble_large by (simp add: couplingRule_def preds0)
  have one: "(1 :: nat) < 2" by simp
  have dims: "uniformDim 1 [[1]]" "uniformDim 1 [[0], [3]]"
    by (simp_all add: uniformDim_def)
  have sw: "swapIfShorter [[1]] [[0], [3]] = ([[0], [3]], [[1]])"
    by (simp add: swapIfShorter_def)
  have distinct: "\<forall>a. 0 < a \<and> a < length [[0], [3 :: real]]
        \<longrightarrow> [[0], [3 :: real]] ! a
              \<noteq> [[1]] ! coreColumn (length [[0], [3 :: real]]) (length [[1 :: real]]) a"
    by (auto simp: less_Suc_eq coreColumn_2_1)
  have bnd: "\<forall>a < length [[0], [3 :: real]].
        euclid ([[0], [3]] ! a)
               ([[1]] ! coreColumn (length [[0], [3 :: real]]) (length [[1 :: real]]) a)
          \<le> maxDouble - 1"
    using maxDouble_sentinel by (auto simp: less_Suc_eq coreColumn_2_1)
  have cdm: "computeDistanceMatrix (\<lambda>i. 0) [[1]] [[0], [3]] []
               = (([[0], [3]], [[1]]), Some (Inr (2, [[1], [2]])))"
    by (simp add: run_simps)
  have cfm: "computeFrechetMatrix_unchecked maxDouble (\<lambda>i. 0) (\<lambda>fm i j. 0) [[1]] [[0], [3]] []
               = (([[0], [3]], [[1]]), Some (Inr [[1], [2]]))"
    using maxDouble_large by (simp add: run_simps run_unchecked_simps)
  note main = C2_coupling_recurrence [OF shape_2_2 shape_2_2 one one bound,
      of "\<lambda>fm i j. 0" 1 "[[1]]" "[[0], [3]]" "[[0], [3]]" "[[1]]" "\<lambda>i. 0"]
  note sentinel = C2_coupling_recurrence [OF shape_2_2 shape_2_2 one one bound0,
      of "\<lambda>fm i j. 0" 1 "[[1]]" "[[0], [3]]" "[[0], [3]]" "[[1]]" "\<lambda>i. 0"]
  have cell: "coupleCell maxDouble [[1, 0], [0, 1]] [[1, 0], [0, 0]] 1 1 = Inr 1"
    using main rule by simp
  have step: "sweepRow maxDouble [[1, 0], [0, 1]] 2 1 1 [[1, 0], [0, 0]]
       = sweepRow maxDouble [[1, 0], [0, 1]] 2 1 2 [[1, 0], [0, 1]]"
    using main rule by (simp add: numeral_2_eq_2)
  have step': "sweepRow_unchecked maxDouble (\<lambda>fm i j. 0) [[1, 0], [0, 1]] 2 1 1 [[1, 0], [0, 0]]
       = sweepRow_unchecked maxDouble (\<lambda>fm i j. 0) [[1, 0], [0, 1]] 2 1 2 [[1, 0], [0, 1]]"
    using main rule by (simp add: numeral_2_eq_2)
  have base: "couplingMatrix maxDouble 2 2 [[1, 0], [0, 1]] []
       = sweepRows maxDouble [[1, 0], [0, 1]] 2 2 1 0 [[1, 0], [0, 0]]"
    using main by (simp add: numeral_2_eq_2)
  have base': "couplingMatrix_unchecked maxDouble (\<lambda>fm i j. 0) 2 2 [[1, 0], [0, 1]] []
       = sweepRows_unchecked maxDouble (\<lambda>fm i j. 0) [[1, 0], [0, 1]] 2 2 1 0 [[1, 0], [0, 0]]"
    using main by (simp add: numeral_2_eq_2)
  have sent: "coupleCell maxDouble [[0, 0], [0, 1]] [[0, 0], [0, 0]] 1 1
                   = Inr (maxDouble - 1)"
    using sentinel rule0 by simp
  note ret = main [THEN conjunct2, THEN conjunct2, THEN conjunct2, THEN conjunct2,
      THEN conjunct2, THEN conjunct2]
  have "\<exists>dm' fm'.
          computeDistanceMatrix (\<lambda>i. 0) [[1]] [[0], [3]] []
            = (([[0], [3]], [[1]]),
               Some (Inr (Max ((\<lambda>a. euclid ([[0], [3]] ! a)
                     ([[1]] ! coreColumn (length [[0], [3 :: real]]) (length [[1 :: real]]) a))
                                 ` {..<length [[0], [3 :: real]]}), dm')))
        \<and> computeFrechetMatrix_unchecked maxDouble (\<lambda>i. 0) (\<lambda>fm i j. 0) [[1]] [[0], [3]] []
            = (([[0], [3]], [[1]]), Some (Inr fm'))
        \<and> frechetDistance_unchecked maxDouble (\<lambda>i. 0) (\<lambda>fm i j. 0) [[1]] [[0], [3]]
            = (([[0], [3]], [[1]]),
               Some (Inr (fm' ! (length [[0], [3 :: real]] - 1) ! (length [[1 :: real]] - 1))))
        \<and> fm' ! 0 ! 0 = euclid ([[0], [3]] ! 0) ([[1]] ! 0)
        \<and> ((\<forall>a < length [[0], [3 :: real]].
               euclid ([[0], [3]] ! a)
                 ([[1]] ! coreColumn (length [[0], [3 :: real]]) (length [[1 :: real]]) a)
                 \<le> maxDouble - 1) \<and> 2 \<le> length [[0], [3 :: real]]
             \<longrightarrow> fm' ! (length [[0], [3 :: real]] - 1) ! (length [[1 :: real]] - 1)
                   = couplingRule maxDouble dm' fm' (length [[0], [3 :: real]] - 1)
                       (length [[1 :: real]] - 1))"
    using ret dims sw distinct by blast
  then obtain dm' fm' where
    a: "computeDistanceMatrix (\<lambda>i. 0) [[1]] [[0], [3]] []
            = (([[0], [3]], [[1]]),
               Some (Inr (Max ((\<lambda>a. euclid ([[0], [3]] ! a)
                     ([[1]] ! coreColumn (length [[0], [3 :: real]]) (length [[1 :: real]]) a))
                                 ` {..<length [[0], [3 :: real]]}), dm')))"
    and b: "computeFrechetMatrix_unchecked maxDouble (\<lambda>i. 0) (\<lambda>fm i j. 0) [[1]] [[0], [3]] []
            = (([[0], [3]], [[1]]), Some (Inr fm'))"
    and c: "frechetDistance_unchecked maxDouble (\<lambda>i. 0) (\<lambda>fm i j. 0) [[1]] [[0], [3]]
            = (([[0], [3]], [[1]]),
               Some (Inr (fm' ! (length [[0], [3 :: real]] - 1) ! (length [[1 :: real]] - 1))))"
    and e: "(\<forall>a < length [[0], [3 :: real]].
               euclid ([[0], [3]] ! a)
                 ([[1]] ! coreColumn (length [[0], [3 :: real]]) (length [[1 :: real]]) a)
                 \<le> maxDouble - 1) \<and> 2 \<le> length [[0], [3 :: real]]
             \<longrightarrow> fm' ! (length [[0], [3 :: real]] - 1) ! (length [[1 :: real]] - 1)
                   = couplingRule maxDouble dm' fm' (length [[0], [3 :: real]] - 1)
                       (length [[1 :: real]] - 1)"
    by blast
  have dm': "dm' = [[1], [2]]" using a cdm by simp
  have fm': "fm' = [[1], [2]]" using b cfm by simp
  have fd: "frechetDistance_unchecked maxDouble (\<lambda>i. 0) (\<lambda>fm i j. 0) [[1]] [[0], [3]]
              = (([[0], [3]], [[1]]), Some (Inr 2))"
    using c fm' by simp
  have "fm' ! (length [[0], [3 :: real]] - 1) ! (length [[1 :: real]] - 1)
          = couplingRule maxDouble dm' fm' (length [[0], [3 :: real]] - 1)
              (length [[1 :: real]] - 1)"
    using e bnd by simp
  then have last: "couplingRule maxDouble [[1], [2]] [[1], [2]] 1 0 = 2"
    using dm' fm' by simp
  show ?thesis
    using shape_2_2 rule cell step step' base base' sent sw cdm cfm fd last
    by (intro conjI)
qed

text \<open>
  C2, as the specification states it, fails. For \<open>l1 = [(0), (1)]\<close> and
  \<open>l2 = [(0), (2)]\<close> the distance matrix has the one set cell \<open>(1, 1)\<close>, with distance 1,
  and none of its three predecessors is set. The sweep visits the cell, and the coupling
  it computes is the sentinel \<open>max() - 1\<close>, not the distance 1.
\<close>

theorem C2_sentinel_counterexample:
  "snd (computeDistanceMatrix (\<lambda>i. 0) [[0], [1]] [[0], [2]] [])
      = Some (Inr (1, [[0, 0], [0, 1]]))
   \<and> mget [[0, 0], [0, 1]] 0 0 = Inr 0
   \<and> mget [[0, 0], [0, 1]] 0 1 = Inr 0
   \<and> mget [[0, 0], [0, 1]] 1 0 = Inr 0
   \<and> mget [[0, 0], [0, 1]] 1 1 = Inr 1
   \<and> skipUnset [[0, 0], [0, 1]] 1 0 = Inr 1
   \<and> coupleCell maxDouble [[0, 0], [0, 1]] [[0, 0], [0, 0]] 1 1 = Inr (maxDouble - 1)
   \<and> maxDouble - 1 \<noteq> 1"
  using maxDouble_large by (simp add: run_simps)


end
